theory Spec2Isabelle
  imports Main "HOL-Library.Sublist" "HOL-Library.Word"
begin

unbundle bit_operations_syntax

section \<open>GHOST-PROTOCOL: monitors, panic coordination and the vault\<close>

text \<open>
  The development embeds \<^verbatim>\<open>security_threads.py\<close> (the camera sentinel and the USB
  guard) and \<^verbatim>\<open>main.py\<close> (the vault and the application controller).

  A monitor's worker is modelled by the sequence of things it does that another
  component can observe: every read of its classifier and every callback it invokes,
  in program order. The classifier results are the input, given as a list: the list
  holds the results of the reads made while \<^verbatim>\<open>self._running\<close> stayed true, so the end
  of the list is the moment the worker observes the stop request.
\<close>

subsection \<open>Observable events of a monitor\<close>

datatype frame =
    NoFrame        \<comment> \<open>\<^verbatim>\<open>ret\<close> is false: no frame could be read\<close>
  | Faces nat      \<comment> \<open>\<^verbatim>\<open>len(faces)\<close> for the frame\<close>
  | FrameError     \<comment> \<open>the read or the detection raised an exception\<close>

datatype event =
    Checked bool           \<comment> \<open>\<^verbatim>\<open>check_ghost_key_present()\<close> returned this value\<close>
  | Frame frame            \<comment> \<open>the sentinel read the camera once\<close>
  | Status string string   \<comment> \<open>\<^verbatim>\<open>status_callback(key, value)\<close>\<close>
  | Blur bool              \<comment> \<open>\<^verbatim>\<open>blur_callback(flag)\<close>\<close>
  | Panic                  \<comment> \<open>\<^verbatim>\<open>panic_callback()\<close>\<close>

subsection \<open>Threads and the monitor base class\<close>

datatype thread_id = MainThread | CameraThread | UsbThread

datatype exn =
  RuntimeError | OSError | ValueError | UnicodeError | PermissionError | AttributeError

text \<open>
  \<^verbatim>\<open>SecurityMonitor\<close>: the running flag and the worker thread (\<^verbatim>\<open>None\<close> before
  \<^verbatim>\<open>start\<close>). The guard adds its two fields, as the subclass does.
\<close>

record monitor =
  running :: bool
  thread :: "thread_id option"

record usb_guard = monitor +
  usb_present :: bool
  bypass_mode :: bool

definition USBGuard_init :: usb_guard where
  "USBGuard_init = \<lparr>running = False, thread = None, usb_present = False, bypass_mode = False\<rparr>"

definition set_bypass_mode :: "bool \<Rightarrow> usb_guard \<Rightarrow> usb_guard" where
  "set_bypass_mode bypass g = g\<lparr>bypass_mode := bypass\<rparr>"

text \<open>
  \<^verbatim>\<open>start\<close> sets the flag and spawns the worker; \<open>t\<close> names the thread it spawns.
\<close>

definition start :: "thread_id \<Rightarrow> ('a monitor_scheme) \<Rightarrow> ('a monitor_scheme)" where
  "start t m = m\<lparr>running := True, thread := Some t\<rparr>"

text \<open>
  \<^verbatim>\<open>stop\<close> clears the flag and then joins the worker with a timeout. Python's
  \<^verbatim>\<open>Thread.join\<close> raises \<^verbatim>\<open>RuntimeError\<close> when the thread to join is the calling thread
  itself; the flag is already cleared when that happens. The result is the monitor
  afterwards, with the exception if one was raised. (The sentinel's own \<^verbatim>\<open>stop\<close> calls
  this one and then releases the camera, which is not modelled.)
\<close>

definition stop :: "thread_id \<Rightarrow> ('a monitor_scheme) \<Rightarrow> exn option \<times> ('a monitor_scheme)" where
  "stop caller m =
     (let m' = m\<lparr>running := False\<rparr>
      in case thread m' of
           None \<Rightarrow> (None, m')
         | Some t \<Rightarrow> if t = caller then (Some RuntimeError, m') else (None, m'))"

subsection \<open>The USB guard's worker\<close>

text \<open>
  The input of the guard's worker, in the order in which things happen: the results of
  its own presence checks, and the calls of \<^verbatim>\<open>set_bypass_mode\<close> that other threads make
  while it runs (both sides take \<^verbatim>\<open>_bypass_lock\<close>, so the calls and the worker's read
  are totally ordered).
\<close>

datatype usb_input =
    SetBypass bool   \<comment> \<open>another thread calls \<^verbatim>\<open>set_bypass_mode\<close>\<close>
  | Check bool       \<comment> \<open>the worker's next \<^verbatim>\<open>check_ghost_key_present()\<close> returns this\<close>

text \<open>
  The \<^verbatim>\<open>while self._running\<close> loop; \<open>initial_state\<close> is the local variable. The status
  callback is taken to return. After the call of the panic callback the loop is left
  whatever the callback did: by the \<^verbatim>\<open>break\<close> when it returned, by its exception when it
  raised (the call is not inside a \<^verbatim>\<open>try\<close>), with the process when it ended the process.
\<close>

fun usb_poll_loop :: "bool \<Rightarrow> usb_guard \<Rightarrow> usb_input list \<Rightarrow> event list" where
  "usb_poll_loop initial_state g [] = []"
| "usb_poll_loop initial_state g (SetBypass b # ins) =
     usb_poll_loop initial_state (set_bypass_mode b g) ins"
| "usb_poll_loop initial_state g (Check current_state # ins) =
     Checked current_state #
     (if initial_state \<and> \<not> current_state then
        [Status ''usb'' ''REMOVED'', Status ''threat'' ''CRITICAL'', Panic]
      else
        (if current_state \<and> \<not> usb_present g then [Status ''usb'' ''SECURE'']
         else if \<not> current_state \<and> usb_present g then [Status ''usb'' ''NO KEY'']
         else [])
        @ usb_poll_loop initial_state (g\<lparr>usb_present := current_state\<rparr>) ins)"

text \<open>
  The initial check, which fixes the baseline, and the loop after it. (An input without
  a check is a run cut off before the initial check has answered.)
\<close>

fun usb_initial_check :: "usb_guard \<Rightarrow> usb_input list \<Rightarrow> event list" where
  "usb_initial_check g [] = []"
| "usb_initial_check g (SetBypass b # ins) = usb_initial_check (set_bypass_mode b g) ins"
| "usb_initial_check g (Check present # ins) =
     Checked present #
     Status ''usb'' (if present then ''SECURE'' else ''NO KEY'') #
     usb_poll_loop present (g\<lparr>usb_present := present\<rparr>) ins"

text \<open>
  \<^verbatim>\<open>USBGuard._monitor_loop\<close>, from the worker's first statement on: \<open>g\<close> is the guard
  object at the moment the worker reads \<^verbatim>\<open>_bypass_mode\<close> into its local variable. In
  bypass mode the worker never checks for the token, whatever the input holds.
\<close>

definition USBGuard_monitor_loop :: "usb_guard \<Rightarrow> usb_input list \<Rightarrow> event list" where
  "USBGuard_monitor_loop g ins =
     (let bypass_mode_local = bypass_mode g
      in if bypass_mode_local then [Status ''usb'' ''BYPASSED'']
         else usb_initial_check g ins)"

text \<open>Projections of a trace.\<close>

definition statuses :: "string \<Rightarrow> event list \<Rightarrow> string list" where
  "statuses k tr = concat (map (\<lambda>e. case e of Status k' v \<Rightarrow> (if k' = k then [v] else []) | _ \<Rightarrow> []) tr)"

definition checks :: "event list \<Rightarrow> bool list" where
  "checks tr = concat (map (\<lambda>e. case e of Checked b \<Rightarrow> [b] | _ \<Rightarrow> []) tr)"

definition key_status :: "bool \<Rightarrow> string" where
  "key_status present = (if present then ''SECURE'' else ''NO KEY'')"

text \<open>The presence checks among the input, without the calls of other threads.\<close>

fun polls :: "usb_input list \<Rightarrow> bool list" where
  "polls [] = []"
| "polls (SetBypass b # ins) = polls ins"
| "polls (Check c # ins) = c # polls ins"

subsection \<open>The camera sentinel's worker\<close>

text \<open>
  What \<^verbatim>\<open>_initialize_camera\<close> finds: the cascade file did not load, the camera did not
  open, everything is ready, or one of the library calls raised.
\<close>

datatype camera_init = CascadeEmpty | NotOpened | Opened | InitError

definition initialize_camera :: "camera_init \<Rightarrow> bool \<times> event list" where
  "initialize_camera c =
     (case c of
        CascadeEmpty \<Rightarrow> (False, [])
      | NotOpened \<Rightarrow> (False, [Status ''camera'' ''NO CAMERA''])
      | Opened \<Rightarrow> (True, [Status ''camera'' ''ARMED''])
      | InitError \<Rightarrow> (False, [Status ''camera'' ''ERROR'']))"

text \<open>
  What a call of \<^verbatim>\<open>panic_callback()\<close> does to its caller: it returns, it raises an
  exception, or it ends the process. The call sits inside the loop's \<^verbatim>\<open>try\<close>, so an
  exception is caught there and the loop goes on to test \<^verbatim>\<open>self._running\<close>; \<open>Raises r\<close>
  carries the value \<open>r\<close> that this test then finds. The status and blur callbacks are
  taken to return (the controller's own ones catch every exception).
\<close>

datatype cb_result = Returns | Raises bool | Exits

fun camera_loop :: "cb_result \<Rightarrow> nat \<Rightarrow> frame list \<Rightarrow> event list" where
  "camera_loop cb last_face_count [] = []"
| "camera_loop cb last_face_count (NoFrame # fs) =
     Frame NoFrame # camera_loop cb last_face_count fs"
| "camera_loop cb last_face_count (FrameError # fs) =
     Frame FrameError # camera_loop cb last_face_count fs"
| "camera_loop cb last_face_count (Faces face_count # fs) =
     Frame (Faces face_count) #
     (if face_count = 0 then
        (if last_face_count \<noteq> 0 then [Status ''camera'' ''LOCKED'', Blur True] else [])
        @ camera_loop cb face_count fs
      else if face_count = 1 then
        (if last_face_count \<noteq> 1 then [Status ''camera'' ''ARMED'', Blur False] else [])
        @ camera_loop cb face_count fs
      else
        [Status ''camera'' ''BREACH'', Status ''threat'' ''CRITICAL'', Panic]
        @ (case cb of
             Returns \<Rightarrow> []
           | Exits \<Rightarrow> []
           | Raises still_running \<Rightarrow>
               if still_running then camera_loop cb last_face_count fs else []))"

text \<open>
  \<^verbatim>\<open>CameraSentinel._monitor_loop\<close>: without a camera the worker only sleeps until it is
  stopped; with one, the loop starts from \<^verbatim>\<open>last_face_count = 1\<close>.
\<close>

definition CameraSentinel_monitor_loop :: "camera_init \<Rightarrow> cb_result \<Rightarrow> frame list \<Rightarrow> event list" where
  "CameraSentinel_monitor_loop c cb frames =
     (case initialize_camera c of
        (False, evs) \<Rightarrow> evs
      | (True, evs) \<Rightarrow> evs @ camera_loop cb 1 frames)"

text \<open>
  The presence state machine as the specification words it: three states, the state
  before the first sample is \<open>PRESENT\<close>, the side effects of a state fire when the state
  is entered from a different one, and \<open>INTRUSION\<close> ends the worker.
\<close>

datatype presence = ABSENT | PRESENT | INTRUSION

definition classify :: "nat \<Rightarrow> presence" where
  "classify n = (if n = 0 then ABSENT else if n = 1 then PRESENT else INTRUSION)"

fun presence_effects :: "presence \<Rightarrow> event list" where
  "presence_effects ABSENT = [Status ''camera'' ''LOCKED'', Blur True]"
| "presence_effects PRESENT = [Status ''camera'' ''ARMED'', Blur False]"
| "presence_effects INTRUSION =
     [Status ''camera'' ''BREACH'', Status ''threat'' ''CRITICAL'', Panic]"

fun spec_presence_trace :: "presence \<Rightarrow> nat list \<Rightarrow> event list" where
  "spec_presence_trace st [] = []"
| "spec_presence_trace st (n # ns) =
     Frame (Faces n) #
     (if classify n = st then [] else presence_effects (classify n)) @
     (if classify n = INTRUSION then [] else spec_presence_trace (classify n) ns)"

definition frames_read :: "event list \<Rightarrow> frame list" where
  "frames_read tr = concat (map (\<lambda>e. case e of Frame f \<Rightarrow> [f] | _ \<Rightarrow> []) tr)"

subsection \<open>Token enumeration\<close>

text \<open>
  \<^verbatim>\<open>check_ghost_key_present\<close> asks the operating system; the answers are the
  environment. A call that can fail answers with \<open>Inl\<close> of the exception.
\<close>

record partition =
  mountpoint :: string
  device :: string

record system_env =
  disk_partitions :: "exn + partition list"     \<comment> \<open>\<^verbatim>\<open>psutil.disk_partitions(all=True)\<close>\<close>
  platform_system :: string                        \<comment> \<open>\<^verbatim>\<open>platform.system()\<close>\<close>
  volume_label :: "string \<Rightarrow> exn + string"      \<comment> \<open>the label \<^verbatim>\<open>GetVolumeInformationW\<close> stores\<close>
  path_exists :: "string \<Rightarrow> bool"                \<comment> \<open>\<^verbatim>\<open>os.path.exists\<close>\<close>
  path_isdir :: "string \<Rightarrow> bool"                 \<comment> \<open>\<^verbatim>\<open>os.path.isdir\<close>\<close>
  listdir :: "string \<Rightarrow> exn + string list"       \<comment> \<open>\<^verbatim>\<open>os.listdir\<close>\<close>

definition REQUIRED_USB_NAME :: string where
  "REQUIRED_USB_NAME = ''GHOST_KEY''"

text \<open>The innermost loop, over the entries of one base directory.\<close>

fun scan_user_dirs :: "system_env \<Rightarrow> string \<Rightarrow> string list \<Rightarrow> bool" where
  "scan_user_dirs env base_dir [] = False"
| "scan_user_dirs env base_dir (user_dir # rest) =
     (let key_path = base_dir @ ''/'' @ user_dir @ ''/'' @ REQUIRED_USB_NAME
      in if path_exists env key_path \<and> path_isdir env key_path then True
         else if user_dir = REQUIRED_USB_NAME then True
         else scan_user_dirs env base_dir rest)"

text \<open>
  The loop over \<^verbatim>\<open>/media\<close>, \<^verbatim>\<open>/mnt\<close> and \<^verbatim>\<open>/run/media\<close>: a \<^verbatim>\<open>PermissionError\<close> skips the
  directory, any other exception leaves the loop.
\<close>

fun scan_base_dirs :: "system_env \<Rightarrow> string list \<Rightarrow> exn + bool" where
  "scan_base_dirs env [] = Inr False"
| "scan_base_dirs env (base_dir # rest) =
     (if path_exists env base_dir then
        (case listdir env base_dir of
           Inl e \<Rightarrow> if e = PermissionError then scan_base_dirs env rest else Inl e
         | Inr entries \<Rightarrow>
             if scan_user_dirs env base_dir entries then Inr True
             else scan_base_dirs env rest)
      else scan_base_dirs env rest)"

text \<open>The loop over the partitions; on Windows every exception of a partition is dropped.\<close>

fun scan_partitions :: "system_env \<Rightarrow> partition list \<Rightarrow> exn + bool" where
  "scan_partitions env [] = Inr False"
| "scan_partitions env (p # ps) =
     (if platform_system env = ''Windows'' then
        (case volume_label env (mountpoint p @ [CHR 0x5C]) of
           Inr name \<Rightarrow> if name = REQUIRED_USB_NAME then Inr True else scan_partitions env ps
         | Inl e \<Rightarrow> scan_partitions env ps)
      else if sublist REQUIRED_USB_NAME (mountpoint p) then Inr True
      else if path_exists env (''/dev/disk/by-label/'' @ REQUIRED_USB_NAME) then Inr True
      else
        (case scan_base_dirs env [''/media'', ''/mnt'', ''/run/media''] of
           Inl e \<Rightarrow> Inl e
         | Inr found \<Rightarrow> if found then Inr True else scan_partitions env ps))"

text \<open>The body of the outer \<^verbatim>\<open>try\<close>, and the method with its handler.\<close>

definition check_body :: "system_env \<Rightarrow> exn + bool" where
  "check_body env =
     (case disk_partitions env of
        Inl e \<Rightarrow> Inl e
      | Inr partitions \<Rightarrow> scan_partitions env partitions)"

definition check_ghost_key_present :: "system_env \<Rightarrow> bool" where
  "check_ghost_key_present env =
     (case check_body env of
        Inr found \<Rightarrow> found
      | Inl e \<Rightarrow> False)"

subsection \<open>The vault\<close>

type_synonym byte = "8 word"

record vault =
  key :: "byte list"
  encrypted_data :: "byte list"
  iv :: "byte list"
  nuked :: bool

text \<open>The constructor; \<open>k\<close> is what \<^verbatim>\<open>get_random_bytes(32)\<close> returned.\<close>

definition GhostProtocolVault_init :: "byte list \<Rightarrow> vault" where
  "GhostProtocolVault_init k = \<lparr>key = k, encrypted_data = [], iv = [], nuked = False\<rparr>"

text \<open>
  \<^verbatim>\<open>os.urandom\<close> as the wipe sees it: \<open>rnd j n\<close> is the answer to the \<open>j\<close>-th call, which
  asks for \<open>n\<close> bytes, and \<open>None\<close> says that the call raised.
\<close>

type_synonym urandom = "nat \<Rightarrow> nat \<Rightarrow> byte list option"

text \<open>
  One \<^verbatim>\<open>for _ in range(3)\<close> loop of the wipe: \<open>passes\<close> calls, the first with number \<open>j\<close>,
  each storing its answer in the field; the answer is the field's last value and the
  number of the next call, or \<open>None\<close> when a call raised.
\<close>

fun overwrite_passes :: "urandom \<Rightarrow> nat \<Rightarrow> nat \<Rightarrow> nat \<Rightarrow> byte list \<Rightarrow> (byte list \<times> nat) option" where
  "overwrite_passes rnd 0 n j field = Some (field, j)"
| "overwrite_passes rnd (Suc passes) n j field =
     (case rnd j n of
        None \<Rightarrow> None
      | Some random_bytes \<Rightarrow> overwrite_passes rnd passes n (Suc j) random_bytes)"

text \<open>The lengths that the wipe computes before it overwrites a field.\<close>

definition key_len :: "vault \<Rightarrow> nat" where
  "key_len v = (if key v \<noteq> [] then length (key v) else 32)"

definition data_len :: "vault \<Rightarrow> nat" where
  "data_len v = (if encrypted_data v \<noteq> [] then length (encrypted_data v) else 0)"

definition iv_len :: "vault \<Rightarrow> nat" where
  "iv_len v = (if iv v \<noteq> [] then length (iv v) else 16)"

text \<open>
  The three blocks of the \<^verbatim>\<open>try\<close> in \<^verbatim>\<open>nuke_memory\<close>, one per field: \<open>j\<close> is the
  number of the block's first call of \<^verbatim>\<open>os.urandom\<close>, and the answer is the vault after
  the block with the number of the next call, or \<open>None\<close> when a pass raised.
\<close>

definition wipe_key :: "urandom \<Rightarrow> nat \<Rightarrow> vault \<Rightarrow> (vault \<times> nat) option" where
  "wipe_key rnd j v =
     (case overwrite_passes rnd 3 (key_len v) j (key v) of
        None \<Rightarrow> None
      | Some (k, j') \<Rightarrow> Some (v\<lparr>key := replicate (key_len v) 0\<rparr>, j'))"

definition wipe_data :: "urandom \<Rightarrow> nat \<Rightarrow> vault \<Rightarrow> (vault \<times> nat) option" where
  "wipe_data rnd j v =
     (case (if data_len v > 0
            then overwrite_passes rnd 3 (data_len v) j (encrypted_data v)
            else Some (encrypted_data v, j)) of
        None \<Rightarrow> None
      | Some (d, j') \<Rightarrow> Some (v\<lparr>encrypted_data := []\<rparr>, j'))"

definition wipe_iv :: "urandom \<Rightarrow> nat \<Rightarrow> vault \<Rightarrow> (vault \<times> nat) option" where
  "wipe_iv rnd j v =
     (case overwrite_passes rnd 3 (iv_len v) j (iv v) of
        None \<Rightarrow> None
      | Some (i, j') \<Rightarrow> Some (v\<lparr>iv := []\<rparr>, j'))"

text \<open>The body of the \<^verbatim>\<open>try\<close>; \<open>Inl\<close> when a pass raised.\<close>

definition nuke_body :: "urandom \<Rightarrow> vault \<Rightarrow> exn + vault" where
  "nuke_body rnd v =
     (case wipe_key rnd 0 v of
        None \<Rightarrow> Inl OSError
      | Some (v1, j1) \<Rightarrow>
          (case wipe_data rnd j1 v1 of
             None \<Rightarrow> Inl OSError
           | Some (v2, j2) \<Rightarrow>
               (case wipe_iv rnd j2 v2 of
                  None \<Rightarrow> Inl OSError
                | Some (v3, j3) \<Rightarrow> Inr (v3\<lparr>nuked := True\<rparr>))))"

definition nuke_memory :: "urandom \<Rightarrow> vault \<Rightarrow> vault" where
  "nuke_memory rnd v =
     (if nuked v then v
      else case nuke_body rnd v of
             Inr v' \<Rightarrow> v'
           | Inl e \<Rightarrow> v\<lparr>key := [], encrypted_data := [], iv := [], nuked := True\<rparr>)"

text \<open>
  The calls of \<^verbatim>\<open>os.urandom\<close> that a wipe of \<open>v\<close> makes when none of them raises: the
  number of the call and the length it asks for.
\<close>

definition overwrite_calls :: "vault \<Rightarrow> (nat \<times> nat) list" where
  "overwrite_calls v =
     [(0, key_len v), (1, key_len v), (2, key_len v)]
     @ (if data_len v > 0
        then [(3, data_len v), (4, data_len v), (5, data_len v),
              (6, iv_len v), (7, iv_len v), (8, iv_len v)]
        else [(3, iv_len v), (4, iv_len v), (5, iv_len v)])"

definition pass_raises :: "urandom \<Rightarrow> vault \<Rightarrow> bool" where
  "pass_raises rnd v = list_ex (\<lambda>(j, n). rnd j n = None) (overwrite_calls v)"

subsection \<open>Encryption and decryption\<close>

text \<open>
  A Python string is a sequence of code points, each below \<open>0x110000\<close>. The strict
  UTF-8 codec that \<^verbatim>\<open>str.encode\<close> and \<^verbatim>\<open>bytes.decode\<close> use refuses the surrogate code
  points \<open>0xD800\<close> to \<open>0xDFFF\<close>; \<open>None\<close> stands for the \<^verbatim>\<open>UnicodeError\<close> it raises.
\<close>

definition utf8_encode_char :: "nat \<Rightarrow> byte list option" where
  "utf8_encode_char c =
     (if c < 0x80 then Some [of_nat c]
      else if c < 0x800 then Some [of_nat (0xC0 + c div 64), of_nat (0x80 + c mod 64)]
      else if c < 0x10000 then
        (if 0xD800 \<le> c \<and> c < 0xE000 then None
         else Some [of_nat (0xE0 + c div 4096), of_nat (0x80 + c div 64 mod 64),
                    of_nat (0x80 + c mod 64)])
      else if c < 0x110000 then
        Some [of_nat (0xF0 + c div 262144), of_nat (0x80 + c div 4096 mod 64),
              of_nat (0x80 + c div 64 mod 64), of_nat (0x80 + c mod 64)]
      else None)"

fun utf8_encode :: "nat list \<Rightarrow> byte list option" where
  "utf8_encode [] = Some []"
| "utf8_encode (c # cs) =
     (case utf8_encode_char c of
        None \<Rightarrow> None
      | Some bs \<Rightarrow> (case utf8_encode cs of None \<Rightarrow> None | Some rest \<Rightarrow> Some (bs @ rest)))"

definition is_cont :: "byte \<Rightarrow> bool" where
  "is_cont b = (0x80 \<le> unat b \<and> unat b < 0xC0)"

fun utf8_decode :: "byte list \<Rightarrow> nat list option" where
  "utf8_decode [] = Some []"
| "utf8_decode (b0 # bs) =
     (let x = unat b0
      in if x < 0x80 then map_option (Cons x) (utf8_decode bs)
         else if x < 0xC2 then None
         else if x < 0xE0 then
           (case bs of
              b1 # r \<Rightarrow>
                if is_cont b1
                then map_option (Cons ((x - 0xC0) * 64 + (unat b1 - 0x80))) (utf8_decode r)
                else None
            | [] \<Rightarrow> None)
         else if x < 0xF0 then
           (case bs of
              b1 # b2 # r \<Rightarrow>
                (let c = (x - 0xE0) * 4096 + (unat b1 - 0x80) * 64 + (unat b2 - 0x80)
                 in if is_cont b1 \<and> is_cont b2 \<and> 0x800 \<le> c \<and> (c < 0xD800 \<or> 0xE000 \<le> c)
                    then map_option (Cons c) (utf8_decode r)
                    else None)
            | _ \<Rightarrow> None)
         else if x < 0xF5 then
           (case bs of
              b1 # b2 # b3 # r \<Rightarrow>
                (let c = (x - 0xF0) * 262144 + (unat b1 - 0x80) * 4096
                         + (unat b2 - 0x80) * 64 + (unat b3 - 0x80)
                 in if is_cont b1 \<and> is_cont b2 \<and> is_cont b3 \<and> 0x10000 \<le> c \<and> c < 0x110000
                    then map_option (Cons c) (utf8_decode r)
                    else None)
            | _ \<Rightarrow> None)
         else None)"

definition encodable :: "nat list \<Rightarrow> bool" where
  "encodable p = list_all (\<lambda>c. c < 0xD800 \<or> (0xE000 \<le> c \<and> c < 0x110000)) p"

text \<open>
  AES in Galois/Counter mode, as far as the vault uses it: \<^verbatim>\<open>AES.new\<close> refuses a key
  that is not 16, 24 or 32 bytes long and an empty nonce; encryption and decryption
  (the tag is thrown away and never verified) both combine the data with the key stream
  that key and nonce determine. The key stream is a parameter: \<open>ks k n i\<close> is its \<open>i\<close>-th
  byte.
\<close>

type_synonym keystream = "byte list \<Rightarrow> byte list \<Rightarrow> nat \<Rightarrow> byte"

definition AES_new :: "byte list \<Rightarrow> byte list \<Rightarrow> exn option" where
  "AES_new k nonce =
     (if (length k = 16 \<or> length k = 24 \<or> length k = 32) \<and> nonce \<noteq> [] then None
      else Some ValueError)"

definition gcm_crypt :: "keystream \<Rightarrow> byte list \<Rightarrow> byte list \<Rightarrow> byte list \<Rightarrow> byte list" where
  "gcm_crypt ks k nonce data = map (\<lambda>(i, b). b XOR ks k nonce i) (enumerate 0 data)"

text \<open>
  \<^verbatim>\<open>encrypt\<close>; \<open>nonce\<close> is what \<^verbatim>\<open>get_random_bytes(16)\<close> returned. The new nonce is stored
  before the cipher is made and the text is encoded, so an exception of these (caught
  and printed) leaves the new nonce beside the old data.
\<close>

definition encrypt :: "keystream \<Rightarrow> byte list \<Rightarrow> nat list \<Rightarrow> vault \<Rightarrow> vault" where
  "encrypt ks nonce plaintext v =
     (if nuked v then v
      else
        let v1 = v\<lparr>iv := nonce\<rparr>
        in case AES_new (key v1) (iv v1) of
             Some e \<Rightarrow> v1
           | None \<Rightarrow>
               (case utf8_encode plaintext of
                  None \<Rightarrow> v1
                | Some plaintext_bytes \<Rightarrow>
                    v1\<lparr>encrypted_data := gcm_crypt ks (key v1) (iv v1) plaintext_bytes\<rparr>))"

definition decrypt :: "keystream \<Rightarrow> vault \<Rightarrow> nat list" where
  "decrypt ks v =
     (if nuked v \<or> encrypted_data v = [] then []
      else case AES_new (key v) (iv v) of
             Some e \<Rightarrow> []
           | None \<Rightarrow>
               (case utf8_decode (gcm_crypt ks (key v) (iv v) (encrypted_data v)) of
                  None \<Rightarrow> []
                | Some plaintext \<Rightarrow> plaintext))"

subsection \<open>The application controller\<close>

datatype gui = GuiAlive | GuiDestroyed

datatype ui_call = UpdateStatus string string | ShowWipeAnimation | ClearSecrets

text \<open>
  The constructor of the window, \<^verbatim>\<open>GhostProtocolGUI.__init__\<close> in \<^verbatim>\<open>gui.py\<close>, builds the
  status panel. \<^verbatim>\<open>StatusPanel.__init__\<close> creates its three rows and only then assigns
  the dictionary \<^verbatim>\<open>_status_labels\<close> in which \<^verbatim>\<open>_create_status_row\<close> stores each row: the
  attribute is \<open>None\<close> here while it does not exist, and storing into it then raises
  \<^verbatim>\<open>AttributeError\<close>. The key of a row is its label without the colon, in lower case,
  with underscores for spaces.
\<close>

record status_panel =
  status_labels :: "(string \<rightharpoonup> string) option"

definition ascii_lower :: "char \<Rightarrow> char" where
  "ascii_lower c =
     (if 65 \<le> (of_char c :: nat) \<and> (of_char c :: nat) \<le> 90
      then char_of ((of_char c :: nat) + 32) else c)"

definition row_key :: "string \<Rightarrow> string" where
  "row_key label_text =
     map (\<lambda>c. if c = CHR '' '' then CHR ''_'' else c)
       (map ascii_lower (filter (\<lambda>c. c \<noteq> CHR '':'') label_text))"

definition create_status_row :: "string \<Rightarrow> string \<Rightarrow> status_panel \<Rightarrow> exn + status_panel" where
  "create_status_row label_text value_text p =
     (case status_labels p of
        None \<Rightarrow> Inl AttributeError
      | Some labels \<Rightarrow>
          Inr (p\<lparr>status_labels :=
                 Some (labels(row_key label_text \<mapsto> ''['' @ value_text @ '']''))\<rparr>))"

definition StatusPanel_init :: "exn + status_panel" where
  "StatusPanel_init =
     (case create_status_row ''CAMERA:'' ''INITIALIZING'' \<lparr>status_labels = None\<rparr> of
        Inl e \<Rightarrow> Inl e
      | Inr p1 \<Rightarrow>
          (case create_status_row ''USB KEY:'' ''SCANNING'' p1 of
             Inl e \<Rightarrow> Inl e
           | Inr p2 \<Rightarrow>
               (case create_status_row ''THREAT:'' ''LOW'' p2 of
                  Inl e \<Rightarrow> Inl e
                | Inr p3 \<Rightarrow> Inr (p3\<lparr>status_labels := Some Map.empty\<rparr>))))"

definition GhostProtocolGUI_init :: "exn + gui" where
  "GhostProtocolGUI_init =
     (case StatusPanel_init of
        Inl e \<Rightarrow> Inl e
      | Inr panel \<Rightarrow> Inr GuiAlive)"

record app =
  bypass_usb :: bool
  enable_camera :: bool
  vault :: "vault option"
  gui :: "gui option"
  camera_sentinel :: "monitor option"
  usb_guard :: "usb_guard option"
  panic_triggered :: bool
  ui_calls :: "ui_call list"

text \<open>How a call ends: it returns a value, it raises, or it ends the process.\<close>

datatype 'r outcome = Returned 'r app | Raised exn app | Exited int app

fun state_of :: "'r outcome \<Rightarrow> app" where
  "state_of (Returned r a) = a"
| "state_of (Raised e a) = a"
| "state_of (Exited c a) = a"

definition GhostProtocol_init :: "bool \<Rightarrow> bool \<Rightarrow> app" where
  "GhostProtocol_init bypass camera =
     \<lparr>bypass_usb = bypass, enable_camera = camera, vault = None, gui = None,
      camera_sentinel = None, usb_guard = None, panic_triggered = False, ui_calls = []\<rparr>"

text \<open>A call into the window; on a destroyed window it raises, and every caller drops that.\<close>

definition ui :: "ui_call list \<Rightarrow> app \<Rightarrow> app" where
  "ui calls a =
     (case gui a of
        Some GuiAlive \<Rightarrow> a\<lparr>ui_calls := ui_calls a @ calls\<rparr>
      | Some GuiDestroyed \<Rightarrow> a
      | None \<Rightarrow> a)"

definition update_status :: "string \<Rightarrow> string \<Rightarrow> app \<Rightarrow> app" where
  "update_status k v a = ui [UpdateStatus k v] a"

definition check_usb_key :: "app \<Rightarrow> system_env \<Rightarrow> bool" where
  "check_usb_key a env =
     (if bypass_usb a then True
      else if check_ghost_key_present env then True
      else False)"

text \<open>
  \<^verbatim>\<open>_stop_monitors\<close>, run by thread \<open>caller\<close>: the sentinel is stopped if there is one,
  then the guard; an exception of the first stop skips the second.
\<close>

definition stop_camera :: "thread_id \<Rightarrow> app \<Rightarrow> exn option \<times> app" where
  "stop_camera caller a =
     (case camera_sentinel a of
        None \<Rightarrow> (None, a)
      | Some m \<Rightarrow> (fst (stop caller m), a\<lparr>camera_sentinel := Some (snd (stop caller m))\<rparr>))"

definition stop_usb :: "thread_id \<Rightarrow> app \<Rightarrow> exn option \<times> app" where
  "stop_usb caller a =
     (case usb_guard a of
        None \<Rightarrow> (None, a)
      | Some g \<Rightarrow> (fst (stop caller g), a\<lparr>usb_guard := Some (snd (stop caller g))\<rparr>))"

definition stop_monitors :: "thread_id \<Rightarrow> app \<Rightarrow> exn option \<times> app" where
  "stop_monitors caller a =
     (case stop_camera caller a of
        (Some e, a1) \<Rightarrow> (Some e, a1)
      | (None, a1) \<Rightarrow> stop_usb caller a1)"

text \<open>
  \<^verbatim>\<open>_trigger_panic\<close>, run by thread \<open>caller\<close>. The test and the assignment of the flag
  happen under \<^verbatim>\<open>_panic_lock\<close>, so they are one step.
\<close>

definition trigger_panic :: "urandom \<Rightarrow> thread_id \<Rightarrow> app \<Rightarrow> unit outcome" where
  "trigger_panic rnd caller a =
     (if panic_triggered a then Returned () a
      else
        let a1 = a\<lparr>panic_triggered := True\<rparr>
        in case stop_monitors caller a1 of
             (Some e, a2) \<Rightarrow> Raised e a2
           | (None, a2) \<Rightarrow>
               let a3 = (case vault a2 of
                           None \<Rightarrow> a2
                         | Some v \<Rightarrow> a2\<lparr>vault := Some (nuke_memory rnd v)\<rparr>);
                   a4 = ui [ShowWipeAnimation, ClearSecrets] a3
               in Exited 0 a4)"

text \<open>
  What the sentinel's worker gets from its panic callback, which is \<^verbatim>\<open>_trigger_panic\<close>
  run by the camera thread in application state \<open>a\<close>.
\<close>

definition camera_panic_callback :: "urandom \<Rightarrow> app \<Rightarrow> cb_result" where
  "camera_panic_callback rnd a =
     (case trigger_panic rnd CameraThread a of
        Returned u a' \<Rightarrow> Returns
      | Exited c a' \<Rightarrow> Exits
      | Raised e a' \<Rightarrow>
          Raises (case camera_sentinel a' of None \<Rightarrow> False | Some m \<Rightarrow> running m))"

definition start_monitors :: "app \<Rightarrow> app" where
  "start_monitors a =
     (let a1 = (if enable_camera a
                then a\<lparr>camera_sentinel := Some (start CameraThread \<lparr>running = False, thread = None\<rparr>)\<rparr>
                else update_status ''camera'' ''DISABLED'' a);
          g = USBGuard_init;
          g1 = (if bypass_usb a1 then set_bypass_mode True g else g);
          a2 = a1\<lparr>usb_guard := Some (start UsbThread g1)\<rparr>
      in update_status ''threat'' ''LOW'' a2)"

definition cleanup :: "urandom \<Rightarrow> app \<Rightarrow> unit outcome" where
  "cleanup rnd a =
     (if \<not> panic_triggered a then trigger_panic rnd MainThread a else Returned () a)"

text \<open>No registered monitor has the main thread as its worker.\<close>

definition workers_only :: "app \<Rightarrow> bool" where
  "workers_only a =
     ((case camera_sentinel a of None \<Rightarrow> True | Some m \<Rightarrow> thread m \<noteq> Some MainThread) \<and>
      (case usb_guard a of None \<Rightarrow> True | Some g \<Rightarrow> thread g \<noteq> Some MainThread))"

text \<open>
  The caller's own monitor at the moment its worker calls the panic trigger. The guard's
  worker calls it only after a baseline check that found the token, which stored true in
  \<^verbatim>\<open>_usb_present\<close>, and no later check has stored another value.
\<close>

definition worker_state :: "thread_id \<Rightarrow> app \<Rightarrow> app" where
  "worker_state t a =
     (if t = UsbThread
      then a\<lparr>usb_guard := map_option (\<lambda>g. g\<lparr>usb_present := True\<rparr>) (usb_guard a)\<rparr>
      else a)"

text \<open>
  What happens while \<^verbatim>\<open>gui.mainloop()\<close> runs, as far as the controller is concerned: the
  calls of the panic trigger, each by the thread that makes it (the main thread for the
  button, the escape key and the signal handler). An exception of the trigger stays in
  the thread that called it and the main loop goes on.
\<close>

fun mainloop :: "urandom \<Rightarrow> thread_id list \<Rightarrow> app \<Rightarrow> unit outcome" where
  "mainloop rnd [] a = Returned () a"
| "mainloop rnd (t # ts) a =
     (case trigger_panic rnd t (worker_state t a) of
        Exited c a' \<Rightarrow> Exited c a'
      | Returned u a' \<Rightarrow> mainloop rnd ts a'
      | Raised e a' \<Rightarrow> mainloop rnd ts a')"

text \<open>The environment of one run of the program.\<close>

record world =
  token :: system_env           \<comment> \<open>what the token scan at startup finds\<close>
  fresh_key :: "byte list"      \<comment> \<open>\<^verbatim>\<open>get_random_bytes(32)\<close>\<close>
  random :: urandom             \<comment> \<open>\<^verbatim>\<open>os.urandom\<close>\<close>
  triggers :: "thread_id list"  \<comment> \<open>the panic calls made while the main loop runs\<close>
  gui_at_end :: gui             \<comment> \<open>the window when the main loop has ended\<close>

text \<open>
  \<^verbatim>\<open>run\<close> after the window has been built: the monitors are started, the main loop
  runs, and the \<^verbatim>\<open>finally\<close> clause calls the panic trigger if nobody has.
\<close>

definition session :: "world \<Rightarrow> app \<Rightarrow> int outcome" where
  "session w a2 =
     (let a3 = start_monitors a2
      in case mainloop (random w) (triggers w) a3 of
           Exited c a4 \<Rightarrow> Exited c a4
         | Raised e a4 \<Rightarrow> Raised e a4
         | Returned u a4 \<Rightarrow>
             let a5 = a4\<lparr>gui := Some (gui_at_end w)\<rparr>
             in if \<not> panic_triggered a5 then
                  (case trigger_panic (random w) MainThread a5 of
                     Exited c a6 \<Rightarrow> Exited c a6
                   | Raised e a6 \<Rightarrow> Raised e a6
                   | Returned u' a6 \<Rightarrow> Returned 0 a6)
                else Returned 0 a5)"

text \<open>
  \<^verbatim>\<open>run\<close>: the token check, the vault, the window, and then the session. An exception
  of the window's constructor leaves \<^verbatim>\<open>run\<close> with the vault created and nothing else.
\<close>

definition run :: "world \<Rightarrow> app \<Rightarrow> int outcome" where
  "run w a =
     (if \<not> check_usb_key a (token w) then Returned 1 a
      else
        let a1 = a\<lparr>vault := Some (GhostProtocolVault_init (fresh_key w))\<rparr>
        in case GhostProtocolGUI_init of
             Inl e \<Rightarrow> Raised e a1
           | Inr g \<Rightarrow> session w (a1\<lparr>gui := Some g\<rparr>))"

text \<open>
  The program: \<^verbatim>\<open>sys.exit(main())\<close>. When \<^verbatim>\<open>run\<close> returns, the interpreter exits with
  the returned code after it has run the handlers registered with \<^verbatim>\<open>atexit\<close>, here
  \<^verbatim>\<open>_cleanup\<close>; a handler that calls \<^verbatim>\<open>os._exit\<close> ends the process with its own code.
  An exception that leaves \<^verbatim>\<open>run\<close> gives code 1 in the same way.
\<close>

definition exit_code :: "world \<Rightarrow> bool \<Rightarrow> bool \<Rightarrow> int" where
  "exit_code w bypass camera =
     (case run w (GhostProtocol_init bypass camera) of
        Exited c a \<Rightarrow> c
      | Returned c a \<Rightarrow>
          (case cleanup (random w) a of Exited c' a' \<Rightarrow> c' | Returned u a' \<Rightarrow> c | Raised e a' \<Rightarrow> c)
      | Raised e a \<Rightarrow>
          (case cleanup (random w) a of Exited c' a' \<Rightarrow> c' | Returned u a' \<Rightarrow> 1 | Raised e' a' \<Rightarrow> 1))"

subsection \<open>Scenarios\<close>

text \<open>
  Concrete environments for the examples: a random source that never fails, a key
  stream, a Linux machine with nothing mounted under the name, the same machine with
  the token mounted, and one on which listing the partitions fails.
\<close>

definition urandom_ok :: urandom where
  "urandom_ok j n = Some (replicate n 0xA5)"

definition ks_zero :: keystream where
  "ks_zero k nonce i = (k ! (i mod 32)) XOR (nonce ! (i mod 16)) XOR of_nat i"

definition urandom_fails :: "nat \<Rightarrow> byte list option" where
  "urandom_fails n = None"

definition no_volume_label :: "string \<Rightarrow> exn + string" where
  "no_volume_label p = Inl OSError"

definition nothing_exists :: "string \<Rightarrow> bool" where
  "nothing_exists p = False"

definition listdir_empty :: "string \<Rightarrow> exn + string list" where
  "listdir_empty p = Inr []"

definition env_no_token :: system_env where
  "env_no_token =
     \<lparr>disk_partitions = Inr [\<lparr>mountpoint = ''/'', device = ''/dev/sda1''\<rparr>],
      platform_system = ''Linux'', volume_label = no_volume_label,
      path_exists = nothing_exists, path_isdir = nothing_exists, listdir = listdir_empty\<rparr>"

definition env_token_mounted :: system_env where
  "env_token_mounted =
     env_no_token\<lparr>disk_partitions :=
       Inr [\<lparr>mountpoint = ''/'', device = ''/dev/sda1''\<rparr>,
            \<lparr>mountpoint = ''/media/user/GHOST_KEY'', device = ''/dev/sdb1''\<rparr>]\<rparr>"

definition env_enumeration_fails :: system_env where
  "env_enumeration_fails = env_token_mounted\<lparr>disk_partitions := Inl OSError\<rparr>"

text \<open>
  The program started without the token and without \<^verbatim>\<open>--bypass-usb\<close>, and the program
  started with the token mounted.
\<close>

definition world_no_token :: world where
  "world_no_token =
     \<lparr>token = env_no_token, fresh_key = replicate 32 0x11, random = urandom_ok,
      triggers = [], gui_at_end = GuiDestroyed\<rparr>"

definition world_token_mounted :: world where
  "world_token_mounted =
     \<lparr>token = env_token_mounted, fresh_key = replicate 32 0x11, random = urandom_ok,
      triggers = [], gui_at_end = GuiDestroyed\<rparr>"

text \<open>
  A controller with a vault, a window and both monitors started by \<^verbatim>\<open>_start_monitors\<close>.
\<close>

definition app_armed :: app where
  "app_armed =
     start_monitors
       ((GhostProtocol_init False True)
          \<lparr>vault := Some (GhostProtocolVault_init (replicate 32 0x11)), gui := Some GuiAlive\<rparr>)"

text \<open>
  A controller with a vault and no window, on which \<^verbatim>\<open>_start_monitors\<close> has started both
  monitors, at the moment the guard's worker, whose baseline check found the token,
  misses it and calls the panic trigger.
\<close>

definition app_guarding :: app where
  "app_guarding =
     worker_state UsbThread
       (start_monitors
          ((GhostProtocol_init False True)
             \<lparr>vault := Some (GhostProtocolVault_init (replicate 32 0x11))\<rparr>))"

section \<open>Properties\<close>

subsection \<open>Traces\<close>

lemma statuses_simps [simp]:
  "statuses k [] = []"
  "statuses k (Status k' v # tr) = (if k' = k then v # statuses k tr else statuses k tr)"
  "statuses k (Checked b # tr) = statuses k tr"
  "statuses k (Frame f # tr) = statuses k tr"
  "statuses k (Blur b # tr) = statuses k tr"
  "statuses k (Panic # tr) = statuses k tr"
  "statuses k (tr @ tr') = statuses k tr @ statuses k tr'"
  by (simp_all add: statuses_def)

lemma checks_simps [simp]:
  "checks [] = []"
  "checks (Checked b # tr) = b # checks tr"
  "checks (Status k v # tr) = checks tr"
  "checks (Frame f # tr) = checks tr"
  "checks (Blur b # tr) = checks tr"
  "checks (Panic # tr) = checks tr"
  "checks (tr @ tr') = checks tr @ checks tr'"
  by (simp_all add: checks_def)

subsection \<open>The dead man's switch\<close>

lemma usb_poll_loop_trip:
  "usb_present g \<Longrightarrow> False \<in> set later \<Longrightarrow>
   usb_poll_loop True g (map Check later) =
     map Checked (takeWhile id later) @
     [Checked False, Status ''usb'' ''REMOVED'', Status ''threat'' ''CRITICAL'', Panic]"
proof (induction later arbitrary: g)
  case Nil
  then show ?case by simp
next
  case (Cons c cs)
  show ?case
  proof (cases c)
    case True
    with Cons.prems have "False \<in> set cs" by auto
    moreover have "usb_present (g\<lparr>usb_present := True\<rparr>)" by simp
    ultimately show ?thesis using Cons.IH True Cons.prems(1) by simp
  next
    case False
    then show ?thesis by simp
  qed
qed

text \<open>
  C3. A guard that is not in bypass mode and whose first check found the token: if a
  later check reports the token absent, the worker reports the status \<open>REMOVED\<close> and the
  threat \<open>CRITICAL\<close>, calls the panic trigger once, and ends its loop there. The trace
  is the baseline, the checks that still found the token, and the trip; no check is made
  after the first one that misses the token.
\<close>

theorem usb_guard_trips_on_removal:
  assumes "\<not> bypass_mode g" and "False \<in> set later"
  shows "USBGuard_monitor_loop g (Check True # map Check later) =
           [Checked True, Status ''usb'' ''SECURE''] @ map Checked (takeWhile id later) @
           [Checked False, Status ''usb'' ''REMOVED'', Status ''threat'' ''CRITICAL'', Panic]
         \<and> count_list (USBGuard_monitor_loop g (Check True # map Check later)) Panic = 1
         \<and> checks (USBGuard_monitor_loop g (Check True # map Check later)) =
             True # takeWhile id later @ [False]"
proof -
  let ?tr = "USBGuard_monitor_loop g (Check True # map Check later)"
  have tr: "?tr = [Checked True, Status ''usb'' ''SECURE''] @ map Checked (takeWhile id later) @
           [Checked False, Status ''usb'' ''REMOVED'', Status ''threat'' ''CRITICAL'', Panic]"
    using assms by (simp add: USBGuard_monitor_loop_def usb_poll_loop_trip)
  have c: "count_list (map Checked bs) Panic = 0" for bs by (induction bs) auto
  have k: "checks (map Checked bs) = bs" for bs by (induction bs) auto
  show ?thesis unfolding tr by (simp add: c k)
qed

lemma usb_poll_loop_no_panic:
  "Panic \<notin> set (usb_poll_loop False g (map Check rest))"
  by (induction rest arbitrary: g) auto

lemma usb_poll_loop_checks:
  "checks (usb_poll_loop False g (map Check rest)) = rest"
  by (induction rest arbitrary: g) auto

lemma usb_poll_loop_statuses:
  "key_status (usb_present g) # statuses ''usb'' (usb_poll_loop False g (map Check rest)) =
   remdups_adj (map key_status (usb_present g # rest))"
proof (induction rest arbitrary: g)
  case Nil
  then show ?case by simp
next
  case (Cons c cs)
  have IH: "key_status c # statuses ''usb'' (usb_poll_loop False (g\<lparr>usb_present := c\<rparr>) (map Check cs)) =
   remdups_adj (map key_status (c # cs))"
    using Cons.IH [of "g\<lparr>usb_present := c\<rparr>"] by simp
  have ks: "key_status True = ''SECURE''" "key_status False = ''NO KEY''"
    by (simp_all add: key_status_def)
  show ?case
  proof (cases "c = usb_present g")
    case True
    then show ?thesis using IH by (cases c) (simp_all add: ks)
  next
    case False
    then show ?thesis using IH by (cases c) (simp_all add: ks)
  qed
qed


theorem usb_guard_trips_on_removal_witness:
  "\<not> bypass_mode USBGuard_init \<and> False \<in> set [True, False, True] \<and>
   USBGuard_monitor_loop USBGuard_init (Check True # map Check [True, False, True]) =
     [Checked True, Status ''usb'' ''SECURE'', Checked True, Checked False,
      Status ''usb'' ''REMOVED'', Status ''threat'' ''CRITICAL'', Panic]"
proof -
  have h1: "\<not> bypass_mode USBGuard_init" by (simp add: USBGuard_init_def)
  have h2: "False \<in> set [True, False, True]" by simp
  show ?thesis
    using h1 h2 usb_guard_trips_on_removal [OF h1 h2] by simp
qed

lemma usb_poll_loop_benign:
  "set (usb_poll_loop False g (map Check rest)) \<subseteq>
     range Checked \<union> {Status ''usb'' ''SECURE'', Status ''usb'' ''NO KEY''}"
  by (induction rest arbitrary: g) auto

text \<open>
  C5. For every input, a guard in bypass mode reports \<open>BYPASSED\<close> once and does nothing
  else, and a guard whose first check missed the token never calls the panic trigger:
  it goes on checking, and its status follows the checks, \<open>SECURE\<close> when the token is
  seen and \<open>NO KEY\<close> when it is not, one report per change.
\<close>

theorem usb_guard_unarmed_never_panics:
  "(bypass_mode g \<longrightarrow>
      USBGuard_monitor_loop g ins = [Status ''usb'' ''BYPASSED''] \<and>
      Panic \<notin> set (USBGuard_monitor_loop g ins))
   \<and> (\<not> bypass_mode g \<longrightarrow>
      Panic \<notin> set (USBGuard_monitor_loop g (Check False # map Check rest)) \<and>
      set (USBGuard_monitor_loop g (Check False # map Check rest)) \<subseteq>
        range Checked \<union> {Status ''usb'' ''SECURE'', Status ''usb'' ''NO KEY''} \<and>
      statuses ''usb'' (USBGuard_monitor_loop g (Check False # map Check rest)) =
        remdups_adj (map key_status (False # rest)) \<and>
      checks (USBGuard_monitor_loop g (Check False # map Check rest)) = False # rest)"
proof (intro conjI impI)
  assume b: "bypass_mode g"
  then show "USBGuard_monitor_loop g ins = [Status ''usb'' ''BYPASSED'']"
    by (simp add: USBGuard_monitor_loop_def)
  then show "Panic \<notin> set (USBGuard_monitor_loop g ins)" by simp
next
  assume nb: "\<not> bypass_mode g"
  let ?g = "g\<lparr>usb_present := False\<rparr>"
  have tr: "USBGuard_monitor_loop g (Check False # map Check rest) =
          Checked False # Status ''usb'' ''NO KEY'' # usb_poll_loop False ?g (map Check rest)"
    using nb by (simp add: USBGuard_monitor_loop_def)
  show "Panic \<notin> set (USBGuard_monitor_loop g (Check False # map Check rest))"
    unfolding tr using usb_poll_loop_no_panic [of ?g rest] by simp
  show "set (USBGuard_monitor_loop g (Check False # map Check rest)) \<subseteq>
        range Checked \<union> {Status ''usb'' ''SECURE'', Status ''usb'' ''NO KEY''}"
    unfolding tr using usb_poll_loop_benign [of ?g rest] by auto
  show "statuses ''usb'' (USBGuard_monitor_loop g (Check False # map Check rest)) =
        remdups_adj (map key_status (False # rest))"
    unfolding tr using usb_poll_loop_statuses [of ?g rest] by (simp add: key_status_def)
  show "checks (USBGuard_monitor_loop g (Check False # map Check rest)) = False # rest"
    unfolding tr by (simp add: usb_poll_loop_checks)
qed

theorem usb_guard_unarmed_never_panics_witness:
  "bypass_mode (set_bypass_mode True USBGuard_init) \<and>
   USBGuard_monitor_loop (set_bypass_mode True USBGuard_init) [Check True, Check False] =
     [Status ''usb'' ''BYPASSED''] \<and>
   \<not> bypass_mode USBGuard_init \<and>
   Panic \<notin> set (USBGuard_monitor_loop USBGuard_init (Check False # map Check [True, False])) \<and>
   statuses ''usb'' (USBGuard_monitor_loop USBGuard_init (Check False # map Check [True, False])) =
     [''NO KEY'', ''SECURE'', ''NO KEY'']"
proof -
  have h1: "bypass_mode (set_bypass_mode True USBGuard_init)"
    by (simp add: set_bypass_mode_def)
  have h2: "\<not> bypass_mode USBGuard_init" by (simp add: USBGuard_init_def)
  show ?thesis
    using h1 h2
      usb_guard_unarmed_never_panics [of "set_bypass_mode True USBGuard_init" "[Check True, Check False]" "[]"]
      usb_guard_unarmed_never_panics [of USBGuard_init "[]" "[True, False]"]
    by (simp add: key_status_def)
qed

subsection \<open>Stopping the monitors and the panic trigger\<close>

lemma stop_fst: "fst (stop c m) = (if thread m = Some c then Some RuntimeError else None)"
  by (simp add: stop_def Let_def split: option.splits)

lemma stop_snd: "snd (stop c m) = m\<lparr>running := False\<rparr>"
  by (simp add: stop_def Let_def split: option.splits)

lemma stop_camera_fst:
  "fst (stop_camera c a) =
     (case camera_sentinel a of
        None \<Rightarrow> None
      | Some m \<Rightarrow> if thread m = Some c then Some RuntimeError else None)"
  by (simp add: stop_camera_def stop_fst split: option.splits)

lemma stop_camera_snd:
  "snd (stop_camera c a) =
     a\<lparr>camera_sentinel := map_option (\<lambda>m. m\<lparr>running := False\<rparr>) (camera_sentinel a)\<rparr>"
  by (simp add: stop_camera_def stop_snd split: option.splits)

lemma stop_usb_fst:
  "fst (stop_usb c a) =
     (case usb_guard a of
        None \<Rightarrow> None
      | Some g \<Rightarrow> if thread g = Some c then Some RuntimeError else None)"
  by (simp add: stop_usb_def stop_fst split: option.splits)

lemma stop_usb_snd:
  "snd (stop_usb c a) =
     a\<lparr>usb_guard := map_option (\<lambda>g. g\<lparr>running := False\<rparr>) (usb_guard a)\<rparr>"
  by (simp add: stop_usb_def stop_snd split: option.splits)

lemma stop_monitors_eq:
  "stop_monitors c a =
     (case fst (stop_camera c a) of
        Some e \<Rightarrow> (Some e, snd (stop_camera c a))
      | None \<Rightarrow> stop_usb c (snd (stop_camera c a)))"
  by (cases "stop_camera c a") (simp add: stop_monitors_def split: option.splits)

lemma stop_monitors_keeps [simp]:
  "vault (snd (stop_monitors c a)) = vault a"
  "gui (snd (stop_monitors c a)) = gui a"
  "panic_triggered (snd (stop_monitors c a)) = panic_triggered a"
  "ui_calls (snd (stop_monitors c a)) = ui_calls a"
  by (simp_all add: stop_monitors_eq stop_camera_snd stop_usb_snd split: option.splits)

lemma stop_monitors_threads:
  "map_option thread (camera_sentinel (snd (stop_monitors c a))) = map_option thread (camera_sentinel a)"
  "map_option thread (usb_guard (snd (stop_monitors c a))) = map_option thread (usb_guard a)"
  by (simp_all add: stop_monitors_eq stop_camera_snd stop_usb_snd option.map_comp comp_def
      split: option.splits)

lemma workers_only_alt:
  "workers_only a \<longleftrightarrow>
     map_option thread (camera_sentinel a) \<noteq> Some (Some MainThread) \<and>
     map_option thread (usb_guard a) \<noteq> Some (Some MainThread)"
  by (simp add: workers_only_def split: option.splits)

lemma workers_only_updates [simp]:
  "workers_only (a\<lparr>vault := v\<rparr>) = workers_only a"
  "workers_only (a\<lparr>gui := g\<rparr>) = workers_only a"
  "workers_only (a\<lparr>panic_triggered := p\<rparr>) = workers_only a"
  "workers_only (a\<lparr>ui_calls := u\<rparr>) = workers_only a"
  by (simp_all add: workers_only_def)

lemma ui_keeps [simp]:
  "panic_triggered (ui calls a) = panic_triggered a"
  "vault (ui calls a) = vault a"
  "camera_sentinel (ui calls a) = camera_sentinel a"
  "usb_guard (ui calls a) = usb_guard a"
  "workers_only (ui calls a) = workers_only a"
  by (simp_all add: ui_def split: option.splits gui.splits)

lemma stop_monitors_workers:
  "workers_only (snd (stop_monitors c a)) = workers_only a"
  by (simp add: workers_only_alt stop_monitors_threads)

lemma stop_monitors_main:
  "workers_only a \<Longrightarrow> fst (stop_monitors MainThread a) = None"
  by (auto simp: workers_only_def stop_monitors_eq stop_camera_fst stop_camera_snd stop_usb_fst
      split: option.splits)

lemma trigger_panic_again:
  "panic_triggered a \<Longrightarrow> trigger_panic rnd t a = Returned () a"
  by (simp add: trigger_panic_def)

lemma trigger_panic_unfold:
  assumes "\<not> panic_triggered a"
  shows "trigger_panic rnd t a =
     (case fst (stop_monitors t (a\<lparr>panic_triggered := True\<rparr>)) of
        Some e \<Rightarrow> Raised e (snd (stop_monitors t (a\<lparr>panic_triggered := True\<rparr>)))
      | None \<Rightarrow>
          Exited 0 (ui [ShowWipeAnimation, ClearSecrets]
            ((snd (stop_monitors t (a\<lparr>panic_triggered := True\<rparr>)))
               \<lparr>vault := map_option (nuke_memory rnd) (vault a)\<rparr>)))"
proof -
  obtain r a2 where s: "stop_monitors t (a\<lparr>panic_triggered := True\<rparr>) = (r, a2)"
    by (cases "stop_monitors t (a\<lparr>panic_triggered := True\<rparr>)")
  have v: "vault a2 = vault a"
    using stop_monitors_keeps(1) [of t "a\<lparr>panic_triggered := True\<rparr>"] s by simp
  have n: "(case vault a2 of None \<Rightarrow> a2 | Some v \<Rightarrow> a2\<lparr>vault := Some (nuke_memory rnd v)\<rparr>) =
        a2\<lparr>vault := map_option (nuke_memory rnd) (vault a)\<rparr>"
    using v by (cases "vault a") simp_all
  show ?thesis
    using assms by (simp add: trigger_panic_def s n Let_def split: option.splits)
qed

lemma trigger_panic_sets_flag:
  "panic_triggered (state_of (trigger_panic rnd t a))"
proof (cases "panic_triggered a")
  case True
  then show ?thesis by (simp add: trigger_panic_again)
next
  case False
  then show ?thesis by (simp add: trigger_panic_unfold split: option.splits)
qed

lemma trigger_panic_exit_code:
  "trigger_panic rnd t a = Exited c a' \<Longrightarrow> c = 0"
  by (cases "panic_triggered a")
     (auto simp: trigger_panic_again trigger_panic_unfold split: option.splits)

lemma trigger_panic_workers:
  assumes "workers_only a"
  shows "workers_only (state_of (trigger_panic rnd t a))"
proof (cases "panic_triggered a")
  case True
  then show ?thesis using assms by (simp add: trigger_panic_again)
next
  case False
  have "workers_only (snd (stop_monitors t (a\<lparr>panic_triggered := True\<rparr>)))"
    using assms by (simp add: stop_monitors_workers)
  then show ?thesis
    by (simp add: trigger_panic_unfold [OF False] split: option.splits)
qed

text \<open>
  Run by the main thread (the signal handler, the emergency button, the exit handler),
  the trigger goes through: the monitors are told to stop, the vault is wiped and the
  process ends with code 0.
\<close>

lemma trigger_panic_main_thread:
  assumes "workers_only a" and "\<not> panic_triggered a"
  shows "trigger_panic rnd MainThread a =
           Exited 0 (ui [ShowWipeAnimation, ClearSecrets]
             ((snd (stop_monitors MainThread (a\<lparr>panic_triggered := True\<rparr>)))
                \<lparr>vault := map_option (nuke_memory rnd) (vault a)\<rparr>))"
proof -
  have "fst (stop_monitors MainThread (a\<lparr>panic_triggered := True\<rparr>)) = None"
    using assms(1) by (simp add: stop_monitors_main)
  then show ?thesis by (simp add: trigger_panic_unfold [OF assms(2)])
qed

text \<open>
  Run by the worker of a registered monitor, the trigger sets the flag and then raises
  out of \<^verbatim>\<open>_stop_monitors\<close>: the vault is as it was and the process goes on.
\<close>

lemma trigger_panic_by_usb_worker:
  assumes "\<not> panic_triggered a" and "usb_guard a = Some g" and "thread g = Some UsbThread"
    and "map_option thread (camera_sentinel a) \<noteq> Some (Some UsbThread)"
  shows "\<exists>a'. trigger_panic rnd UsbThread a = Raised RuntimeError a' \<and>
              vault a' = vault a \<and> panic_triggered a'"
proof -
  have c: "fst (stop_camera UsbThread (a\<lparr>panic_triggered := True\<rparr>)) = None"
    using assms(4) by (simp add: stop_camera_fst split: option.splits)
  have "fst (stop_monitors UsbThread (a\<lparr>panic_triggered := True\<rparr>)) = Some RuntimeError"
    using assms(2,3) by (simp add: stop_monitors_eq c stop_usb_fst stop_camera_snd)
  then show ?thesis by (simp add: trigger_panic_unfold [OF assms(1)])
qed

lemma trigger_panic_by_camera_worker:
  assumes "\<not> panic_triggered a" and "camera_sentinel a = Some m" and "thread m = Some CameraThread"
  shows "trigger_panic rnd CameraThread a =
           Raised RuntimeError
             (a\<lparr>panic_triggered := True, camera_sentinel := Some (m\<lparr>running := False\<rparr>)\<rparr>)"
proof -
  have "stop_monitors CameraThread (a\<lparr>panic_triggered := True\<rparr>) =
        (Some RuntimeError, a\<lparr>panic_triggered := True, camera_sentinel := Some (m\<lparr>running := False\<rparr>)\<rparr>)"
    using assms(2,3) by (simp add: stop_monitors_eq stop_camera_fst stop_camera_snd)
  then show ?thesis by (simp add: trigger_panic_unfold [OF assms(1)])
qed

subsection \<open>The presence sentinel\<close>

lemma camera_loop_refines:
  "last_count \<le> 1 \<Longrightarrow> cb \<noteq> Raises True \<Longrightarrow>
   camera_loop cb last_count (map Faces ns) = spec_presence_trace (classify last_count) ns"
proof (induction ns arbitrary: last_count)
  case Nil
  then show ?case by simp
next
  case (Cons n ns)
  consider "n = 0" | "n = 1" | "2 \<le> n" by linarith
  then show ?case
  proof cases
    case 1
    then show ?thesis using Cons.prems Cons.IH [of 0] by (auto simp: classify_def)
  next
    case 2
    then show ?thesis using Cons.prems Cons.IH [of 1] by (auto simp: classify_def)
  next
    case 3
    then show ?thesis using Cons.prems by (cases cb) (auto simp: classify_def)
  qed
qed

lemma trigger_panic_by_worker:
  assumes "camera_sentinel a = Some m" and "thread m = Some CameraThread"
  shows "camera_panic_callback rnd a = Returns \<or> camera_panic_callback rnd a = Raises False"
proof (cases "panic_triggered a")
  case True
  then show ?thesis by (simp add: camera_panic_callback_def trigger_panic_again)
next
  case False
  from trigger_panic_by_camera_worker [OF False assms, of rnd] show ?thesis
    by (simp add: camera_panic_callback_def)
qed

lemma frames_read_simps [simp]:
  "frames_read [] = []"
  "frames_read (Frame f # tr) = f # frames_read tr"
  "frames_read (Status k v # tr) = frames_read tr"
  "frames_read (Checked b # tr) = frames_read tr"
  "frames_read (Blur b # tr) = frames_read tr"
  "frames_read (Panic # tr) = frames_read tr"
  "frames_read (tr @ tr') = frames_read tr @ frames_read tr'"
  by (simp_all add: frames_read_def)

text \<open>
  C4. In the application, where the sentinel's panic callback is the controller's panic
  trigger run by the camera thread, the worker's trace for every sequence of face
  counts is the trace of the edge-triggered state machine that starts in \<open>PRESENT\<close>:
  status and blur calls are made exactly when the classification of a sample differs
  from that of the sample before it. For the counts 1, 0, 1, 2 and whatever follows, the
  trace is \<open>ARMED\<close>; \<open>LOCKED\<close> with the blur engaged; \<open>ARMED\<close> with the blur released;
  \<open>BREACH\<close>, one call of the panic trigger, and no further read.
\<close>

theorem presence_sentinel_edge_triggered:
  assumes "camera_sentinel a = Some m" and "thread m = Some CameraThread"
  shows "CameraSentinel_monitor_loop Opened (camera_panic_callback rnd a) (map Faces ns) =
           Status ''camera'' ''ARMED'' # spec_presence_trace PRESENT ns
         \<and> CameraSentinel_monitor_loop Opened (camera_panic_callback rnd a)
             (map Faces ([1, 0, 1, 2] @ rest)) =
           [Status ''camera'' ''ARMED'',
            Frame (Faces 1),
            Frame (Faces 0), Status ''camera'' ''LOCKED'', Blur True,
            Frame (Faces 1), Status ''camera'' ''ARMED'', Blur False,
            Frame (Faces 2), Status ''camera'' ''BREACH'', Status ''threat'' ''CRITICAL'', Panic]"
proof -
  let ?cb = "camera_panic_callback rnd a"
  have cb: "?cb \<noteq> Raises True"
    using trigger_panic_by_worker [OF assms, of rnd] by auto
  have loop: "CameraSentinel_monitor_loop Opened ?cb (map Faces xs) =
          Status ''camera'' ''ARMED'' # spec_presence_trace PRESENT xs" for xs
    using camera_loop_refines [of 1 ?cb xs] cb
    by (simp add: CameraSentinel_monitor_loop_def initialize_camera_def classify_def)
  show ?thesis
    unfolding loop by (simp add: classify_def)
qed

theorem presence_sentinel_edge_triggered_witness:
  "camera_sentinel app_armed = Some \<lparr>running = True, thread = Some CameraThread\<rparr> \<and>
   thread \<lparr>running = True, thread = Some CameraThread\<rparr> = Some CameraThread \<and>
   CameraSentinel_monitor_loop Opened (camera_panic_callback urandom_ok app_armed)
     (map Faces [1, 1, 0, 0, 1, 3, 0]) =
     [Status ''camera'' ''ARMED'', Frame (Faces 1), Frame (Faces 1),
      Frame (Faces 0), Status ''camera'' ''LOCKED'', Blur True, Frame (Faces 0),
      Frame (Faces 1), Status ''camera'' ''ARMED'', Blur False,
      Frame (Faces 3), Status ''camera'' ''BREACH'', Status ''threat'' ''CRITICAL'', Panic]"
proof -
  have h1: "camera_sentinel app_armed = Some \<lparr>running = True, thread = Some CameraThread\<rparr>"
    by (simp add: app_armed_def start_monitors_def GhostProtocol_init_def start_def
        update_status_def ui_def Let_def)
  have h2: "thread \<lparr>running = True, thread = Some CameraThread\<rparr> = Some CameraThread"
    by simp
  show ?thesis
    using h1 h2 presence_sentinel_edge_triggered [OF h1 h2, of urandom_ok "[1, 1, 0, 0, 1, 3, 0]" "[]"]
    by (simp add: classify_def)
qed

subsection \<open>The wipe\<close>

lemma overwrite_passes_3:
  "overwrite_passes rnd 3 n j f =
     (case rnd j n of None \<Rightarrow> None
      | Some b0 \<Rightarrow> (case rnd (j + 1) n of None \<Rightarrow> None
         | Some b1 \<Rightarrow> (case rnd (j + 2) n of None \<Rightarrow> None
            | Some b2 \<Rightarrow> Some (b2, j + 3))))"
  by (simp add: numeral_3_eq_3 split: option.splits)

lemma overwrite_passes_None:
  "overwrite_passes rnd 3 n j f = None \<longleftrightarrow>
     rnd j n = None \<or> rnd (j + 1) n = None \<or> rnd (j + 2) n = None"
  by (auto simp: overwrite_passes_3 split: option.splits)

lemma overwrite_passes_Some:
  "overwrite_passes rnd 3 n j f = Some (b, j') \<Longrightarrow> j' = j + 3"
  by (auto simp: overwrite_passes_3 split: option.splits)

lemma wipe_key_Some:
  "wipe_key rnd j v = Some (v', j') \<Longrightarrow>
     j' = j + 3 \<and> v' = v\<lparr>key := replicate (key_len v) 0\<rparr>"
  unfolding wipe_key_def
  by (auto split: option.splits dest: overwrite_passes_Some)

lemma wipe_data_Some:
  "wipe_data rnd j v = Some (v', j') \<Longrightarrow>
     j' = (if data_len v > 0 then j + 3 else j) \<and> v' = v\<lparr>encrypted_data := []\<rparr>"
  unfolding wipe_data_def
  by (cases "data_len v > 0") (auto split: option.splits dest: overwrite_passes_Some)

lemma wipe_iv_Some:
  "wipe_iv rnd j v = Some (v', j') \<Longrightarrow> j' = j + 3 \<and> v' = v\<lparr>iv := []\<rparr>"
  unfolding wipe_iv_def
  by (auto split: option.splits dest: overwrite_passes_Some)

lemma wipe_key_None:
  "wipe_key rnd j v = None \<longleftrightarrow> overwrite_passes rnd 3 (key_len v) j (key v) = None"
  unfolding wipe_key_def by (simp split: option.splits)

lemma wipe_data_None:
  "wipe_data rnd j v = None \<longleftrightarrow>
     data_len v > 0 \<and> overwrite_passes rnd 3 (data_len v) j (encrypted_data v) = None"
  unfolding wipe_data_def by (simp split: option.splits)

lemma wipe_iv_None:
  "wipe_iv rnd j v = None \<longleftrightarrow> overwrite_passes rnd 3 (iv_len v) j (iv v) = None"
  unfolding wipe_iv_def by (simp split: option.splits)

lemma len_simps [simp]:
  "key_len (v\<lparr>encrypted_data := d\<rparr>) = key_len v"
  "key_len (v\<lparr>iv := i\<rparr>) = key_len v"
  "data_len (v\<lparr>key := k\<rparr>) = data_len v"
  "data_len (v\<lparr>iv := i\<rparr>) = data_len v"
  "iv_len (v\<lparr>key := k\<rparr>) = iv_len v"
  "iv_len (v\<lparr>encrypted_data := d\<rparr>) = iv_len v"
  by (simp_all add: key_len_def data_len_def iv_len_def)

lemma nuke_body_Inr:
  assumes "nuke_body rnd v = Inr v'"
  shows "v' = \<lparr>key = replicate (key_len v) 0, encrypted_data = [], iv = [], nuked = True\<rparr>"
proof -
  from assms obtain v1 j1 v2 j2 v3 j3 where
    k: "wipe_key rnd 0 v = Some (v1, j1)" and
    d: "wipe_data rnd j1 v1 = Some (v2, j2)" and
    i: "wipe_iv rnd j2 v2 = Some (v3, j3)" and
    v': "v' = v3\<lparr>nuked := True\<rparr>"
    unfolding nuke_body_def by (auto split: option.splits)
  from wipe_key_Some [OF k] wipe_data_Some [OF d] wipe_iv_Some [OF i] v'
  show ?thesis by simp
qed

lemma pass_raises_iff:
  "pass_raises rnd v \<longleftrightarrow>
     overwrite_passes rnd 3 (key_len v) 0 (key v) = None \<or>
     (data_len v > 0 \<and> overwrite_passes rnd 3 (data_len v) 3 (encrypted_data v) = None) \<or>
     overwrite_passes rnd 3 (iv_len v) (if data_len v > 0 then 6 else 3) (iv v) = None"
  by (cases "data_len v > 0")
     (auto simp: pass_raises_def overwrite_calls_def overwrite_passes_None numeral_2_eq_2)

lemma nuke_body_raises:
  assumes "pass_raises rnd v"
  shows "nuke_body rnd v = Inl OSError"
proof (cases "wipe_key rnd 0 v")
  case None
  then show ?thesis by (simp add: nuke_body_def)
next
  case (Some r1)
  then obtain v1 j1 where k: "wipe_key rnd 0 v = Some (v1, j1)" by (cases r1) auto
  from wipe_key_Some [OF k] have j1: "j1 = 3"
    and v1: "v1 = v\<lparr>key := replicate (key_len v) 0\<rparr>"
    by simp_all
  have nk: "overwrite_passes rnd 3 (key_len v) 0 (key v) \<noteq> None"
    using k wipe_key_None [of rnd 0 v] by simp
  show ?thesis
  proof (cases "wipe_data rnd j1 v1")
    case None
    then show ?thesis using k by (simp add: nuke_body_def)
  next
    case (Some r2)
    then obtain v2 j2 where d: "wipe_data rnd j1 v1 = Some (v2, j2)" by (cases r2) auto
    from wipe_data_Some [OF d] have j2: "j2 = (if data_len v > 0 then 6 else 3)"
      and v2: "v2 = v1\<lparr>encrypted_data := []\<rparr>"
      by (simp_all add: j1 v1)
    have nd: "\<not> (data_len v > 0 \<and>
      overwrite_passes rnd 3 (data_len v) 3 (encrypted_data v) = None)"
      using d wipe_data_None [of rnd j1 v1] by (simp add: j1 v1)
    have "overwrite_passes rnd 3 (iv_len v) (if data_len v > 0 then 6 else 3) (iv v) = None"
      using assms nk nd unfolding pass_raises_iff by simp
    then have "wipe_iv rnd j2 v2 = None"
      unfolding wipe_iv_None by (simp add: j2 v2 v1)
    then show ?thesis using k d by (simp add: nuke_body_def)
  qed
qed

lemma nuke_body_returns:
  assumes "\<not> pass_raises rnd v"
  shows "\<exists>v'. nuke_body rnd v = Inr v'"
proof -
  from assms have
    n1: "overwrite_passes rnd 3 (key_len v) 0 (key v) \<noteq> None" and
    n2: "\<not> (data_len v > 0 \<and> overwrite_passes rnd 3 (data_len v) 3 (encrypted_data v) = None)" and
    n3: "overwrite_passes rnd 3 (iv_len v) (if data_len v > 0 then 6 else 3) (iv v) \<noteq> None"
    unfolding pass_raises_iff by simp_all
  have "wipe_key rnd 0 v \<noteq> None"
    unfolding wipe_key_None using n1 .
  then obtain v1 j1 where k: "wipe_key rnd 0 v = Some (v1, j1)" by auto
  from wipe_key_Some [OF k] have j1: "j1 = 3"
    and v1: "v1 = v\<lparr>key := replicate (key_len v) 0\<rparr>"
    by simp_all
  have "wipe_data rnd j1 v1 \<noteq> None"
    unfolding wipe_data_None using n2 by (simp add: j1 v1)
  then obtain v2 j2 where d: "wipe_data rnd j1 v1 = Some (v2, j2)" by auto
  from wipe_data_Some [OF d] have j2: "j2 = (if data_len v > 0 then 6 else 3)"
    and v2: "v2 = v1\<lparr>encrypted_data := []\<rparr>"
    by (simp_all add: j1 v1)
  have "wipe_iv rnd j2 v2 \<noteq> None"
    unfolding wipe_iv_None using n3 by (simp add: j2 v2 v1)
  then obtain v3 j3 where i: "wipe_iv rnd j2 v2 = Some (v3, j3)" by auto
  show ?thesis using k d i by (simp add: nuke_body_def)
qed

text \<open>
  C6. If one of the overwrite passes that the wipe of a vault makes raises, the wipe
  still returns, with key, data and nonce empty and the vault marked as wiped.
\<close>

theorem wipe_survives_failed_pass:
  assumes "\<not> nuked v" and "pass_raises rnd v"
  shows "nuke_memory rnd v = \<lparr>key = [], encrypted_data = [], iv = [], nuked = True\<rparr>"
  using assms by (simp add: nuke_memory_def nuke_body_raises)

theorem wipe_survives_failed_pass_witness:
  "\<not> nuked (GhostProtocolVault_init (replicate 32 0x11)) \<and>
   pass_raises (urandom_ok(1 := urandom_fails)) (GhostProtocolVault_init (replicate 32 0x11)) \<and>
   nuke_memory (urandom_ok(1 := urandom_fails)) (GhostProtocolVault_init (replicate 32 0x11)) =
     \<lparr>key = [], encrypted_data = [], iv = [], nuked = True\<rparr>"
proof -
  let ?v = "GhostProtocolVault_init (replicate 32 0x11)"
  let ?rnd = "urandom_ok(1 := urandom_fails)"
  have h1: "\<not> nuked ?v" by (simp add: GhostProtocolVault_init_def)
  have h2: "pass_raises ?rnd ?v"
    by (simp add: pass_raises_def overwrite_calls_def urandom_fails_def)
  show ?thesis using h1 h2 wipe_survives_failed_pass [OF h1 h2] by simp
qed

lemma nuke_memory_cases:
  "nuke_memory rnd v =
     (if nuked v then v
      else if pass_raises rnd v then \<lparr>key = [], encrypted_data = [], iv = [], nuked = True\<rparr>
      else \<lparr>key = replicate (key_len v) 0, encrypted_data = [], iv = [], nuked = True\<rparr>)"
proof (cases "nuked v")
  case True
  then show ?thesis by (simp add: nuke_memory_def)
next
  case False
  show ?thesis
  proof (cases "pass_raises rnd v")
    case True
    then show ?thesis using False by (simp add: nuke_memory_def nuke_body_raises)
  next
    case np: False
    then obtain v' where b: "nuke_body rnd v = Inr v'" using nuke_body_returns by blast
    from nuke_body_Inr [OF b] show ?thesis using False np b by (simp add: nuke_memory_def)
  qed
qed

lemma nuke_memory_inert:
  "nuked (nuke_memory rnd v)"
  "\<not> nuked v \<Longrightarrow> encrypted_data (nuke_memory rnd v) = [] \<and> iv (nuke_memory rnd v) = []"
  by (simp_all add: nuke_memory_cases)

lemma nuke_memory_twice: "nuke_memory rnd' (nuke_memory rnd v) = nuke_memory rnd v"
  using nuke_memory_inert(1) [of rnd v] by (simp add: nuke_memory_def)

lemma decrypt_after_nuke: "decrypt ks (nuke_memory rnd v) = []"
  using nuke_memory_inert(1) [of rnd v] by (simp add: decrypt_def)

lemma encrypt_after_nuke: "encrypt ks nonce p (nuke_memory rnd v) = nuke_memory rnd v"
  using nuke_memory_inert(1) [of rnd v] by (simp add: encrypt_def)

text \<open>
  C2. The wipe marks the vault, a second wipe changes nothing and decryption gives the
  empty string afterwards (the three lemmas above); but when no pass raises, the key
  is left as zero bytes of its old length, not empty: here on a fresh vault.
\<close>

theorem nuke_leaves_zero_key:
  "nuke_memory urandom_ok (GhostProtocolVault_init (replicate 32 0x11)) =
     \<lparr>key = replicate 32 0, encrypted_data = [], iv = [], nuked = True\<rparr>
   \<and> key (nuke_memory urandom_ok (GhostProtocolVault_init (replicate 32 0x11))) \<noteq> []"
  by (simp add: nuke_memory_cases pass_raises_def overwrite_calls_def key_len_def
      GhostProtocolVault_init_def urandom_ok_def)

subsection \<open>Enumeration errors\<close>

lemma check_error_is_absent:
  "check_body env = Inl e \<Longrightarrow> \<not> check_ghost_key_present env"
  by (simp add: check_ghost_key_present_def)

lemma enumeration_error:
  "disk_partitions env = Inl e \<Longrightarrow> check_body env = Inl e"
  by (simp add: check_body_def)

text \<open>
  C7, as stated, fails: listing the partitions raises, the check answers false, and the
  guard, whose baseline was present, calls the panic trigger.
\<close>

theorem enumeration_error_trips_guard:
  "check_body env_enumeration_fails = Inl OSError \<and>
   Panic \<in> set (USBGuard_monitor_loop USBGuard_init
                   [Check True, Check (check_ghost_key_present env_enumeration_fails)])"
  by (simp add: check_body_def check_ghost_key_present_def env_enumeration_fails_def
      USBGuard_monitor_loop_def USBGuard_init_def)

text \<open>
  C7, amended. When the body of the token check raises, the check returns false and
  raises nothing, and the guard treats that answer as it treats any absence: with a
  present baseline the worker reports \<open>REMOVED\<close> and calls the panic trigger; with an
  absent baseline, or in bypass mode, it never calls it.
\<close>

theorem enumeration_error_reads_as_absent:
  assumes "check_body env = Inl e"
  shows "\<not> check_ghost_key_present env
       \<and> (\<not> bypass_mode g \<longrightarrow>
            USBGuard_monitor_loop g
              (Check True # map Check (replicate n True @ check_ghost_key_present env # rest)) =
            [Checked True, Status ''usb'' ''SECURE''] @ replicate n (Checked True) @
            [Checked False, Status ''usb'' ''REMOVED'', Status ''threat'' ''CRITICAL'', Panic])
       \<and> (\<not> bypass_mode g \<longrightarrow>
            Panic \<notin> set (USBGuard_monitor_loop g
              (Check False # map Check (before @ check_ghost_key_present env # rest))))
       \<and> (bypass_mode g \<longrightarrow> Panic \<notin> set (USBGuard_monitor_loop g ins))"
proof -
  have absent: "check_ghost_key_present env = False"
    using assms by (simp add: check_ghost_key_present_def)
  have tw: "takeWhile id (replicate n True @ False # rest) = replicate n True"
    by (induction n) auto
  have trip: "\<not> bypass_mode g \<Longrightarrow>
      USBGuard_monitor_loop g (Check True # map Check (replicate n True @ False # rest)) =
      [Checked True, Status ''usb'' ''SECURE''] @ replicate n (Checked True) @
      [Checked False, Status ''usb'' ''REMOVED'', Status ''threat'' ''CRITICAL'', Panic]"
    using usb_poll_loop_trip [of "g\<lparr>usb_present := True\<rparr>" "replicate n True @ False # rest"]
    by (simp add: USBGuard_monitor_loop_def tw del: map_append)
  have quiet: "\<not> bypass_mode g \<Longrightarrow>
      Panic \<notin> set (USBGuard_monitor_loop g (Check False # map Check (before @ False # rest)))"
    using usb_poll_loop_no_panic [of "g\<lparr>usb_present := False\<rparr>" "before @ False # rest"]
    by (simp add: USBGuard_monitor_loop_def del: map_append)
  have byp: "bypass_mode g \<Longrightarrow> Panic \<notin> set (USBGuard_monitor_loop g ins)"
    by (simp add: USBGuard_monitor_loop_def)
  show ?thesis using trip quiet byp by (simp add: absent)
qed

theorem enumeration_error_reads_as_absent_witness:
  "check_body env_enumeration_fails = Inl OSError \<and>
   \<not> check_ghost_key_present env_enumeration_fails \<and>
   \<not> bypass_mode USBGuard_init \<and>
   USBGuard_monitor_loop USBGuard_init
     (Check True # map Check (replicate 2 True @ check_ghost_key_present env_enumeration_fails # [True])) =
     [Checked True, Status ''usb'' ''SECURE'', Checked True, Checked True,
      Checked False, Status ''usb'' ''REMOVED'', Status ''threat'' ''CRITICAL'', Panic] \<and>
   Panic \<notin> set (USBGuard_monitor_loop USBGuard_init
     (Check False # map Check ([True] @ check_ghost_key_present env_enumeration_fails # [True]))) \<and>
   bypass_mode (set_bypass_mode True USBGuard_init) \<and>
   Panic \<notin> set (USBGuard_monitor_loop (set_bypass_mode True USBGuard_init) [Check True, Check False])"
proof -
  have h: "check_body env_enumeration_fails = Inl OSError"
    by (simp add: check_body_def env_enumeration_fails_def)
  have nb: "\<not> bypass_mode USBGuard_init" by (simp add: USBGuard_init_def)
  have b: "bypass_mode (set_bypass_mode True USBGuard_init)" by (simp add: set_bypass_mode_def)
  show ?thesis
    using h nb b
      enumeration_error_reads_as_absent [OF h, of USBGuard_init 2 "[True]" "[True]" "[]"]
      enumeration_error_reads_as_absent [OF h, of "set_bypass_mode True USBGuard_init" 0 "[]" "[]"
        "[Check True, Check False]"]
    by (simp add: numeral_2_eq_2)
qed

subsection \<open>The bypass configuration\<close>

lemma usb_poll_loop_polls:
  "usb_present g = usb_present g' \<Longrightarrow>
   usb_poll_loop init g ins = usb_poll_loop init g' (map Check (polls ins))"
proof (induction ins arbitrary: g g')
  case Nil
  then show ?case by simp
next
  case (Cons i ins)
  show ?case
  proof (cases i)
    case (SetBypass b)
    then show ?thesis
      using Cons.IH [of "set_bypass_mode b g" g'] Cons.prems by (simp add: set_bypass_mode_def)
  next
    case (Check c)
    then show ?thesis
      using Cons.IH [of "g\<lparr>usb_present := c\<rparr>" "g'\<lparr>usb_present := c\<rparr>"] Cons.prems by simp
  qed
qed

lemma polls_map_Check [simp]: "polls (map Check cs) = cs"
  by (induction cs) auto

lemma usb_initial_check_polls:
  "usb_initial_check g ins = usb_initial_check g (map Check (polls ins))"
proof (induction ins arbitrary: g)
  case Nil
  then show ?case by simp
next
  case (Cons i ins)
  show ?case
  proof (cases i)
    case (SetBypass b)
    have "usb_initial_check (set_bypass_mode b g) (map Check (polls ins)) =
          usb_initial_check g (map Check (polls ins))"
    proof (cases "polls ins")
      case Nil
      then show ?thesis by simp
    next
      case (Cons c cs)
      then show ?thesis
        using usb_poll_loop_polls [of "set_bypass_mode b g\<lparr>usb_present := c\<rparr>" "g\<lparr>usb_present := c\<rparr>" c "map Check cs"]
        by (simp add: set_bypass_mode_def)
    qed
    then show ?thesis using SetBypass Cons.IH [of "set_bypass_mode b g"] by simp
  next
    case (Check c)
    then show ?thesis
      using usb_poll_loop_polls [of "g\<lparr>usb_present := c\<rparr>" "g\<lparr>usb_present := c\<rparr>" c ins] by simp
  qed
qed

text \<open>
  C10, as stated, fails: \<^verbatim>\<open>start\<close> returns once the worker is spawned, and a call of
  \<^verbatim>\<open>set_bypass_mode\<close> that takes the lock before the worker reads the configuration
  decides the worker's mode. Started without bypass, the guard that sees the token and
  then misses it trips; with the call in between it reports \<open>BYPASSED\<close> instead.
\<close>

theorem bypass_race_after_start:
  "USBGuard_monitor_loop (set_bypass_mode True (start UsbThread USBGuard_init)) [Check True, Check False]
   \<noteq> USBGuard_monitor_loop (start UsbThread USBGuard_init) [Check True, Check False]"
  by (simp add: USBGuard_monitor_loop_def set_bypass_mode_def start_def USBGuard_init_def)

text \<open>
  C10, amended. The configuration is read once, by the worker's first statement. The
  calls of \<^verbatim>\<open>set_bypass_mode\<close> made after that read change nothing: the trace is the one
  of the presence checks alone. A worker that read "no bypass" trips when a check
  misses the token after a present baseline, whatever calls are made in between, and a
  worker that read "bypass" reports \<open>BYPASSED\<close> and nothing else.
\<close>

theorem bypass_read_once:
  "USBGuard_monitor_loop g ins = USBGuard_monitor_loop g (map Check (polls ins))
   \<and> (\<not> bypass_mode g \<longrightarrow> polls ins = True # later \<longrightarrow> False \<in> set later \<longrightarrow>
        USBGuard_monitor_loop g ins =
          [Checked True, Status ''usb'' ''SECURE''] @ map Checked (takeWhile id later) @
          [Checked False, Status ''usb'' ''REMOVED'', Status ''threat'' ''CRITICAL'', Panic])
   \<and> (bypass_mode g \<longrightarrow> USBGuard_monitor_loop g ins = [Status ''usb'' ''BYPASSED''])"
proof -
  have ind: "USBGuard_monitor_loop g ins = USBGuard_monitor_loop g (map Check (polls ins))"
    using usb_initial_check_polls [of g ins] by (simp add: USBGuard_monitor_loop_def)
  have trip: "USBGuard_monitor_loop g ins =
          [Checked True, Status ''usb'' ''SECURE''] @ map Checked (takeWhile id later) @
          [Checked False, Status ''usb'' ''REMOVED'', Status ''threat'' ''CRITICAL'', Panic]"
    if "\<not> bypass_mode g" "polls ins = True # later" "False \<in> set later"
    using that usb_poll_loop_trip [of "g\<lparr>usb_present := True\<rparr>" later]
    unfolding ind by (simp add: USBGuard_monitor_loop_def)
  show ?thesis using ind trip by (simp add: USBGuard_monitor_loop_def)
qed

theorem bypass_read_once_witness:
  "USBGuard_monitor_loop USBGuard_init
     [Check True, SetBypass True, Check True, SetBypass False, Check False, Check True] =
     USBGuard_monitor_loop USBGuard_init
       (map Check (polls [Check True, SetBypass True, Check True, SetBypass False, Check False, Check True])) \<and>
   \<not> bypass_mode USBGuard_init \<and>
   polls [Check True, SetBypass True, Check True, SetBypass False, Check False, Check True] =
     True # [True, False, True] \<and>
   False \<in> set [True, False, True] \<and>
   USBGuard_monitor_loop USBGuard_init
     [Check True, SetBypass True, Check True, SetBypass False, Check False, Check True] =
     [Checked True, Status ''usb'' ''SECURE''] @ map Checked (takeWhile id [True, False, True]) @
     [Checked False, Status ''usb'' ''REMOVED'', Status ''threat'' ''CRITICAL'', Panic] \<and>
   bypass_mode (set_bypass_mode True USBGuard_init) \<and>
   USBGuard_monitor_loop (set_bypass_mode True USBGuard_init) [SetBypass False, Check True, Check False] =
     [Status ''usb'' ''BYPASSED'']"
proof -
  let ?ins = "[Check True, SetBypass True, Check True, SetBypass False, Check False, Check True]"
  have nb: "\<not> bypass_mode USBGuard_init" by (simp add: USBGuard_init_def)
  have b: "bypass_mode (set_bypass_mode True USBGuard_init)" by (simp add: set_bypass_mode_def)
  have p: "polls ?ins = True # [True, False, True]" by simp
  have f: "False \<in> set [True, False, True]" by simp
  note t1 = bypass_read_once [of USBGuard_init ?ins "[True, False, True]"]
  note t2 = bypass_read_once [of "set_bypass_mode True USBGuard_init"
      "[SetBypass False, Check True, Check False]" "[]"]
  show ?thesis using nb b p f t1 t2 by blast
qed

subsection \<open>The run of the program\<close>

lemma worker_state_keeps [simp]:
  "panic_triggered (worker_state t a) = panic_triggered a"
  "vault (worker_state t a) = vault a"
  "workers_only (worker_state t a) = workers_only a"
  by (simp_all add: worker_state_def workers_only_def option.map_comp comp_def
      split: option.splits)

lemma mainloop_exit_code:
  "mainloop rnd ts a = Exited c a' \<Longrightarrow> c = 0"
proof (induction ts arbitrary: a)
  case Nil
  then show ?case by simp
next
  case (Cons t ts)
  then show ?case
    by (cases "trigger_panic rnd t (worker_state t a)") (auto dest: trigger_panic_exit_code)
qed

lemma mainloop_workers:
  "workers_only a \<Longrightarrow> workers_only (state_of (mainloop rnd ts a))"
proof (induction ts arbitrary: a)
  case Nil
  then show ?case by simp
next
  case (Cons t ts)
  have "workers_only (worker_state t a)" using Cons.prems by simp
  from trigger_panic_workers [OF this, of rnd t] Cons.IH
  show ?case by (cases "trigger_panic rnd t (worker_state t a)") auto
qed

lemma mainloop_not_raised: "mainloop rnd ts a \<noteq> Raised e a'"
proof (induction ts arbitrary: a)
  case Nil
  then show ?case by simp
next
  case (Cons t ts)
  then show ?case by (cases "trigger_panic rnd t (worker_state t a)") auto
qed

lemma start_monitors_threads:
  "map_option thread (usb_guard (start_monitors a)) = Some (Some UsbThread)"
  "map_option thread (camera_sentinel (start_monitors a)) =
     (if enable_camera a then Some (Some CameraThread)
      else map_option thread (camera_sentinel a))"
  by (simp_all add: start_monitors_def start_def update_status_def Let_def)

lemma start_monitors_keeps [simp]:
  "panic_triggered (start_monitors a) = panic_triggered a"
  "vault (start_monitors a) = vault a"
  by (simp_all add: start_monitors_def update_status_def Let_def)

lemma start_monitors_workers:
  "workers_only a \<Longrightarrow> workers_only (start_monitors a)"
  by (simp add: workers_only_alt start_monitors_threads)

text \<open>
  A session, once it has a window, ends the process with code 0 or returns 0 with the
  flag set.
\<close>

lemma session_cases:
  assumes "workers_only a"
  shows "(\<exists>a'. session w a = Exited 0 a')
   \<or> (\<exists>a'. session w a = Returned 0 a' \<and> panic_triggered a')"
proof -
  define a3 where "a3 = start_monitors a"
  have w3: "workers_only a3" using assms by (simp add: a3_def start_monitors_workers)
  have run: "session w a =
      (case mainloop (random w) (triggers w) a3 of
             Exited c a4 \<Rightarrow> Exited c a4
           | Raised e a4 \<Rightarrow> Raised e a4
           | Returned u a4 \<Rightarrow>
               let a5 = a4\<lparr>gui := Some (gui_at_end w)\<rparr>
               in if \<not> panic_triggered a5 then
                    (case trigger_panic (random w) MainThread a5 of
                       Exited c a6 \<Rightarrow> Exited c a6
                     | Raised e a6 \<Rightarrow> Raised e a6
                     | Returned u' a6 \<Rightarrow> Returned 0 a6)
                  else Returned 0 a5)"
    by (simp add: session_def a3_def Let_def)
  show ?thesis
  proof (cases "mainloop (random w) (triggers w) a3")
    case (Exited c a4)
    then show ?thesis using run mainloop_exit_code [OF Exited] by simp
  next
    case (Raised e a4)
    then show ?thesis using mainloop_not_raised by simp
  next
    case (Returned u a4)
    define a5 where "a5 = a4\<lparr>gui := Some (gui_at_end w)\<rparr>"
    have "workers_only a4" using mainloop_workers [OF w3, of "random w" "triggers w"] Returned by simp
    then have w5: "workers_only a5" by (simp add: a5_def workers_only_def)
    show ?thesis
    proof (cases "panic_triggered a5")
      case True
      then show ?thesis using run Returned by (simp add: a5_def)
    next
      case False
      from trigger_panic_main_thread [OF w5 False, of "random w"]
      show ?thesis using run Returned False by (simp add: a5_def)
    qed
  qed
qed

text \<open>
  The window's constructor raises, so \<^verbatim>\<open>run\<close> either is denied or leaves by that
  exception with the vault created; the exit handler then wipes it, and the exit code
  is 0 either way.
\<close>

lemma GhostProtocolGUI_init_raises: "GhostProtocolGUI_init = Inl AttributeError"
  by (simp add: GhostProtocolGUI_init_def StatusPanel_init_def create_status_row_def)

lemma run_denied:
  "\<not> bypass_usb a \<Longrightarrow> \<not> check_ghost_key_present (token w) \<Longrightarrow> run w a = Returned 1 a"
  by (simp add: run_def check_usb_key_def)

lemma run_eq:
  "run w a =
     (if check_usb_key a (token w)
      then Raised AttributeError (a\<lparr>vault := Some (GhostProtocolVault_init (fresh_key w))\<rparr>)
      else Returned 1 a)"
  by (simp add: run_def GhostProtocolGUI_init_raises Let_def)

lemma exit_code_zero: "exit_code w bypass camera = 0"
proof -
  let ?a = "GhostProtocol_init bypass camera"
  let ?a1 = "?a\<lparr>vault := Some (GhostProtocolVault_init (fresh_key w))\<rparr>"
  have w0: "workers_only ?a" by (simp add: workers_only_def GhostProtocol_init_def)
  have n0: "\<not> panic_triggered ?a" by (simp add: GhostProtocol_init_def)
  have w1: "workers_only ?a1" using w0 by simp
  have n1: "\<not> panic_triggered ?a1" using n0 by simp
  show ?thesis
  proof (cases "check_usb_key ?a (token w)")
    case True
    from trigger_panic_main_thread [OF w1 n1, of "random w"]
    show ?thesis using True n1 by (simp add: exit_code_def run_eq cleanup_def)
  next
    case False
    from trigger_panic_main_thread [OF w0 n0, of "random w"]
    show ?thesis using False n0 by (simp add: exit_code_def run_eq cleanup_def)
  qed
qed

lemma env_no_token_absent: "\<not> check_ghost_key_present env_no_token"
  by (simp add: check_ghost_key_present_def check_body_def env_no_token_def nothing_exists_def
      listdir_empty_def REQUIRED_USB_NAME_def sublist_code)

lemma env_token_mounted_present: "check_ghost_key_present env_token_mounted"
  by (simp add: check_ghost_key_present_def check_body_def env_token_mounted_def env_no_token_def
      nothing_exists_def listdir_empty_def REQUIRED_USB_NAME_def sublist_code)

lemma run_token_mounted:
  "run world_token_mounted (GhostProtocol_init False True) =
     Raised AttributeError
       ((GhostProtocol_init False True)
          \<lparr>vault := Some (GhostProtocolVault_init (replicate 32 0x11))\<rparr>)"
  using env_token_mounted_present
  by (simp add: run_eq check_usb_key_def world_token_mounted_def)

lemma app_guarding_eq:
  "app_guarding =
     \<lparr>bypass_usb = False, enable_camera = True,
      vault = Some (GhostProtocolVault_init (replicate 32 0x11)), gui = None,
      camera_sentinel = Some \<lparr>running = True, thread = Some CameraThread\<rparr>,
      usb_guard = Some \<lparr>running = True, thread = Some UsbThread, usb_present = True,
                        bypass_mode = False\<rparr>,
      panic_triggered = False, ui_calls = []\<rparr>"
  by (simp add: app_guarding_def worker_state_def start_monitors_def GhostProtocol_init_def
      start_def update_status_def ui_def USBGuard_init_def Let_def)

text \<open>
  C1. The flag is never cleared and a second call does nothing (lemmas
  \<open>trigger_panic_sets_flag\<close>, \<open>trigger_panic_again\<close>), and a call by the main thread
  runs the whole sequence (\<open>trigger_panic_main_thread\<close>). A call by a monitor's own
  worker does not: stopping the monitors joins the calling thread, which raises, so the
  vault is not wiped and the process is not ended, and since the flag is set every
  later call returns at once. Here the trigger is called by the guard's worker on a
  controller whose monitors are started: the call raises, the vault is as it was, and a
  following call by the main thread returns without doing anything.
\<close>

theorem panic_from_worker_aborts:
  "trigger_panic urandom_ok UsbThread app_guarding =
     Raised RuntimeError
       (app_guarding\<lparr>panic_triggered := True,
                     camera_sentinel := Some \<lparr>running = False, thread = Some CameraThread\<rparr>,
                     usb_guard := Some \<lparr>running = False, thread = Some UsbThread,
                                        usb_present = True, bypass_mode = False\<rparr>\<rparr>)
   \<and> vault (state_of (trigger_panic urandom_ok UsbThread app_guarding)) =
       Some (GhostProtocolVault_init (replicate 32 0x11))
   \<and> trigger_panic urandom_ok MainThread (state_of (trigger_panic urandom_ok UsbThread app_guarding)) =
       Returned () (state_of (trigger_panic urandom_ok UsbThread app_guarding))"
proof -
  have t: "trigger_panic urandom_ok UsbThread app_guarding =
     Raised RuntimeError
       (app_guarding\<lparr>panic_triggered := True,
                     camera_sentinel := Some \<lparr>running = False, thread = Some CameraThread\<rparr>,
                     usb_guard := Some \<lparr>running = False, thread = Some UsbThread,
                                        usb_present = True, bypass_mode = False\<rparr>\<rparr>)"
    by (simp add: app_guarding_eq trigger_panic_def stop_monitors_def stop_camera_def stop_usb_def
        stop_def Let_def)
  show ?thesis
    unfolding t by (simp add: trigger_panic_again) (simp add: app_guarding_eq)
qed

text \<open>
  C8. Without the token and without bypass, \<^verbatim>\<open>run\<close> returns 1 and has created neither
  vault nor window nor monitors; but the exit handler then finds the flag clear, calls
  the panic trigger, and the process ends with code 0 (as it does on every path, lemma
  \<open>exit_code_zero\<close>).
\<close>

theorem denied_start_exits_zero:
  "run world_no_token (GhostProtocol_init False True) = Returned 1 (GhostProtocol_init False True)
   \<and> exit_code world_no_token False True = 0"
proof -
  have r: "run world_no_token (GhostProtocol_init False True) = Returned 1 (GhostProtocol_init False True)"
    using env_no_token_absent
    by (simp add: run_denied world_no_token_def GhostProtocol_init_def)
  show ?thesis
    unfolding exit_code_def r
    by (simp add: cleanup_def trigger_panic_def stop_monitors_def stop_camera_def stop_usb_def
        GhostProtocol_init_def ui_def Let_def)
qed

subsection \<open>The cipher and the codec\<close>

lemma gcm_crypt_length [simp]: "length (gcm_crypt ks k n d) = length d"
  by (simp add: gcm_crypt_def)

lemma gcm_crypt_nth:
  "i < length d \<Longrightarrow> gcm_crypt ks k n d ! i = d ! i XOR ks k n i"
  by (simp add: gcm_crypt_def nth_enumerate_eq)

lemma gcm_crypt_involution: "gcm_crypt ks k n (gcm_crypt ks k n d) = d"
  by (rule nth_equalityI) (simp_all add: gcm_crypt_nth bit.xor_self xor.assoc)

lemma gcm_crypt_Nil [simp]: "gcm_crypt ks k n d = [] \<longleftrightarrow> d = []"
  using gcm_crypt_length [of ks k n d] by (metis length_0_conv)

lemma unat_byte: "n < 256 \<Longrightarrow> unat (of_nat n :: byte) = n"
  by (simp add: unat_of_nat)

lemma utf8_1:
  assumes "c < 0x80"
  shows "utf8_decode (of_nat c # rest) = map_option (Cons c) (utf8_decode rest)"
  using assms by (simp add: unat_byte)

lemma split_4096: "(c::nat) div 4096 * 4096 + c div 64 mod 64 * 64 + c mod 64 = c"
proof -
  define q where "q = c div 64"
  have q2: "c div 4096 = q div 64" unfolding q_def by (simp add: div_mult2_eq)
  have dist: "(x * 64 + y) * 64 = x * 4096 + y * 64" for x y :: nat by simp
  have "q div 64 * 4096 + q mod 64 * 64 = (q div 64 * 64 + q mod 64) * 64"
    by (rule dist [symmetric])
  also have "\<dots> = q * 64" by simp
  finally have "q div 64 * 4096 + q mod 64 * 64 + c mod 64 = q * 64 + c mod 64" by simp
  also have "\<dots> = c" unfolding q_def by simp
  finally show ?thesis unfolding q2 q_def .
qed

lemma split_262144:
  "(c::nat) div 262144 * 262144 + c div 4096 mod 64 * 4096 + c div 64 mod 64 * 64 + c mod 64 = c"
proof -
  define q where "q = c div 4096"
  have q2: "c div 262144 = q div 64" unfolding q_def by (simp add: div_mult2_eq)
  have dist: "(x * 64 + y) * 4096 = x * 262144 + y * 4096" for x y :: nat by simp
  have "q div 64 * 262144 + q mod 64 * 4096 = (q div 64 * 64 + q mod 64) * 4096"
    by (rule dist [symmetric])
  also have "\<dots> = q * 4096" by simp
  finally have "q div 64 * 262144 + q mod 64 * 4096 + c div 64 mod 64 * 64 + c mod 64 =
        q * 4096 + c div 64 mod 64 * 64 + c mod 64" by simp
  also have "\<dots> = c" unfolding q_def by (rule split_4096)
  finally show ?thesis unfolding q2 q_def .
qed


lemma utf8_2_aux:
  assumes "2 \<le> a" and "a < 32" and "m < 64"
  shows "utf8_decode (of_nat (0xC0 + a) # of_nat (0x80 + m) # rest) =
         map_option (Cons (a * 64 + m)) (utf8_decode rest)"
proof -
  have x: "unat (of_nat (0xC0 + a) :: byte) = 0xC0 + a"
    using assms by (intro unat_byte) simp
  have y: "unat (of_nat (0x80 + m) :: byte) = 0x80 + m"
    using assms by (intro unat_byte) simp
  show ?thesis
    using assms by (simp add: x y is_cont_def del: of_nat_add)
qed

lemma utf8_3_aux:
  assumes "a < 16" and "b < 64" and "m < 64" and "0x800 \<le> a * 4096 + b * 64 + m"
    and "a * 4096 + b * 64 + m < 0xD800 \<or> 0xE000 \<le> a * 4096 + b * 64 + m"
  shows "utf8_decode (of_nat (0xE0 + a) # of_nat (0x80 + b) # of_nat (0x80 + m) # rest) =
         map_option (Cons (a * 4096 + b * 64 + m)) (utf8_decode rest)"
proof -
  have x: "unat (of_nat (0xE0 + a) :: byte) = 0xE0 + a"
    using assms by (intro unat_byte) simp
  have y: "unat (of_nat (0x80 + b) :: byte) = 0x80 + b"
    using assms by (intro unat_byte) simp
  have z: "unat (of_nat (0x80 + m) :: byte) = 0x80 + m"
    using assms by (intro unat_byte) simp
  show ?thesis
    using assms by (simp add: x y z is_cont_def del: of_nat_add)
qed

lemma utf8_4_aux:
  assumes "a < 5" and "b < 64" and "d < 64" and "m < 64"
    and "0x10000 \<le> a * 262144 + b * 4096 + d * 64 + m"
    and "a * 262144 + b * 4096 + d * 64 + m < 0x110000"
  shows "utf8_decode (of_nat (0xF0 + a) # of_nat (0x80 + b) # of_nat (0x80 + d) #
                      of_nat (0x80 + m) # rest) =
         map_option (Cons (a * 262144 + b * 4096 + d * 64 + m)) (utf8_decode rest)"
proof -
  have x: "unat (of_nat (0xF0 + a) :: byte) = 0xF0 + a"
    using assms by (intro unat_byte) simp
  have y: "unat (of_nat (0x80 + b) :: byte) = 0x80 + b"
    using assms by (intro unat_byte) simp
  have z: "unat (of_nat (0x80 + d) :: byte) = 0x80 + d"
    using assms by (intro unat_byte) simp
  have u: "unat (of_nat (0x80 + m) :: byte) = 0x80 + m"
    using assms by (intro unat_byte) simp
  show ?thesis
    using assms by (simp add: x y z u is_cont_def del: of_nat_add)
qed

lemma utf8_decode_encode_char:
  assumes "utf8_encode_char c = Some bs"
  shows "utf8_decode (bs @ rest) = map_option (Cons c) (utf8_decode rest)"
proof -
  have m: "c mod 64 < 64" "c div 64 mod 64 < 64" "c div 4096 mod 64 < 64" by simp_all
  consider "c < 0x80" | "0x80 \<le> c" "c < 0x800"
    | "0x800 \<le> c" "c < 0x10000" | "0x10000 \<le> c" "c < 0x110000" | "0x110000 \<le> c"
    by linarith
  then show ?thesis
  proof cases
    case 1
    then have "bs = [of_nat c]" using assms by (simp add: utf8_encode_char_def)
    then show ?thesis using utf8_1 [OF 1] by simp
  next
    case 2
    have a: "2 \<le> c div 64" "c div 64 < 32"
      using 2 by (simp_all add: div_less_iff_less_mult less_eq_div_iff_mult_less_eq)
    note aux = utf8_2_aux [OF a m(1), of rest, unfolded div_mult_mod_eq]
    have "bs = [of_nat (0xC0 + c div 64), of_nat (0x80 + c mod 64)]"
      using assms 2 by (simp add: utf8_encode_char_def del: of_nat_add)
    then show ?thesis using aux by (simp del: of_nat_add utf8_decode.simps)
  next
    case 3
    have ns: "c < 0xD800 \<or> 0xE000 \<le> c"
      using assms 3 by (auto simp: utf8_encode_char_def split: if_splits)
    have a: "c div 4096 < 16"
      using 3 by (simp add: div_less_iff_less_mult)
    note aux = utf8_3_aux [OF a m(2) m(1), of rest, unfolded split_4096, OF 3(1) ns]
    have "bs = [of_nat (0xE0 + c div 4096), of_nat (0x80 + c div 64 mod 64),
                of_nat (0x80 + c mod 64)]"
      using assms 3 ns by (auto simp: utf8_encode_char_def simp del: of_nat_add)
    then show ?thesis using aux by (simp del: of_nat_add utf8_decode.simps)
  next
    case 4
    have a: "c div 262144 < 5"
      using 4 by (simp add: div_less_iff_less_mult)
    note aux = utf8_4_aux [OF a m(3) m(2) m(1), of rest, unfolded split_262144, OF 4]
    have "bs = [of_nat (0xF0 + c div 262144), of_nat (0x80 + c div 4096 mod 64),
                of_nat (0x80 + c div 64 mod 64), of_nat (0x80 + c mod 64)]"
      using assms 4 by (simp add: utf8_encode_char_def del: of_nat_add)
    then show ?thesis using aux by (simp del: of_nat_add utf8_decode.simps)
  next
    case 5
    then show ?thesis using assms by (simp add: utf8_encode_char_def)
  qed
qed

lemma utf8_encode_char_nonempty: "utf8_encode_char c = Some bs \<Longrightarrow> bs \<noteq> []"
  by (auto simp: utf8_encode_char_def split: if_splits)

lemma utf8_roundtrip:
  "utf8_encode p = Some bs \<Longrightarrow> utf8_decode bs = Some p"
proof (induction p arbitrary: bs)
  case Nil
  then show ?case by simp
next
  case (Cons c cs)
  then obtain b r where b: "utf8_encode_char c = Some b" and r: "utf8_encode cs = Some r"
    and bs: "bs = b @ r"
    by (auto split: option.splits)
  show ?case
    using utf8_decode_encode_char [OF b, of r] Cons.IH [OF r] by (simp add: bs)
qed

lemma utf8_encode_Nil: "utf8_encode p = Some [] \<Longrightarrow> p = []"
  by (cases p) (auto split: option.splits dest: utf8_encode_char_nonempty)

lemma encodable_encodes: "encodable p \<Longrightarrow> \<exists>bs. utf8_encode p = Some bs"
proof (induction p)
  case Nil
  then show ?case by simp
next
  case (Cons c cs)
  then have "\<exists>b. utf8_encode_char c = Some b"
    by (auto simp: encodable_def utf8_encode_char_def)
  then show ?case using Cons by (auto simp: encodable_def)
qed

lemma utf8_encode_encodable: "utf8_encode p = Some bs \<Longrightarrow> encodable p"
proof (induction p arbitrary: bs)
  case Nil
  then show ?case by (simp add: encodable_def)
next
  case (Cons c cs)
  then obtain b r where b: "utf8_encode_char c = Some b" and r: "utf8_encode cs = Some r"
    by (auto split: option.splits)
  from b have "c < 0xD800 \<or> (0xE000 \<le> c \<and> c < 0x110000)"
    by (auto simp: utf8_encode_char_def split: if_splits)
  then show ?case using Cons.IH [OF r] by (simp add: encodable_def)
qed


subsection \<open>Encrypt, then decrypt\<close>

lemma AES_new_ok: "length k = 32 \<Longrightarrow> nonce \<noteq> [] \<Longrightarrow> AES_new k nonce = None"
  by (simp add: AES_new_def)

lemma encrypt_keeps_key:
  "key (encrypt ks nonce p v) = key v" "nuked (encrypt ks nonce p v) = nuked v"
  by (simp_all add: encrypt_def Let_def split: option.splits)

lemma decrypt_fresh: "decrypt ks (GhostProtocolVault_init k) = []"
  by (simp add: decrypt_def GhostProtocolVault_init_def)

text \<open>
  C9, as stated, fails: a Python string may hold a lone surrogate, which the encoder
  refuses; \<^verbatim>\<open>encrypt\<close> catches the exception and stores nothing, and \<^verbatim>\<open>decrypt\<close> on the
  fresh vault returns the empty string, not the text.
\<close>

theorem surrogate_does_not_round_trip:
  "decrypt ks_zero (encrypt ks_zero (replicate 16 0x22) [0xD800]
     (GhostProtocolVault_init (replicate 32 0x11))) \<noteq> [0xD800]"
  by (simp add: decrypt_def encrypt_def AES_new_def utf8_encode_char_def
      GhostProtocolVault_init_def Let_def)

text \<open>
  C9, amended. On a vault that has not been wiped and holds the 32-byte key of its
  creation, for every text without surrogate code points, \<^verbatim>\<open>encrypt\<close> followed by
  \<^verbatim>\<open>decrypt\<close> returns the text, for every 16-byte nonce and key stream; and \<^verbatim>\<open>decrypt\<close> on
  a vault in which nothing was ever encrypted returns the empty string.
\<close>

theorem encrypt_decrypt_round_trip:
  assumes "\<not> nuked v" and "length (key v) = 32" and "length nonce = 16" and "encodable p"
  shows "decrypt ks (encrypt ks nonce p v) = p
       \<and> decrypt ks (GhostProtocolVault_init k) = []"
proof -
  from assms(4) obtain bs where bs: "utf8_encode p = Some bs"
    using encodable_encodes by blast
  have n: "nonce \<noteq> []" using assms(3) by auto
  have aes: "AES_new (key v) nonce = None"
    using assms(2) n by (rule AES_new_ok)
  have e: "encrypt ks nonce p v =
        v\<lparr>iv := nonce, encrypted_data := gcm_crypt ks (key v) nonce bs\<rparr>"
    using assms(1) aes bs by (simp add: encrypt_def Let_def)
  have d: "decrypt ks (encrypt ks nonce p v) = p"
  proof (cases "bs = []")
    case True
    then have "p = []" using bs utf8_encode_Nil by blast
    moreover have "decrypt ks (encrypt ks nonce p v) = []"
      unfolding e using True by (simp add: decrypt_def)
    ultimately show ?thesis by simp
  next
    case False
    then show ?thesis
      unfolding e using assms(1) aes utf8_roundtrip [OF bs]
      by (simp add: decrypt_def gcm_crypt_involution)
  qed
  show ?thesis using d by (simp add: decrypt_fresh)
qed

theorem encrypt_decrypt_round_trip_witness:
  "\<not> nuked (GhostProtocolVault_init (replicate 32 0x11)) \<and>
   length (key (GhostProtocolVault_init (replicate 32 0x11))) = 32 \<and>
   length (replicate 16 (0x22 :: byte)) = 16 \<and>
   encodable [0x47, 0xE9, 0x20AC, 0x1F600] \<and>
   decrypt ks_zero (encrypt ks_zero (replicate 16 0x22) [0x47, 0xE9, 0x20AC, 0x1F600]
     (GhostProtocolVault_init (replicate 32 0x11))) = [0x47, 0xE9, 0x20AC, 0x1F600]"
proof -
  let ?v = "GhostProtocolVault_init (replicate 32 0x11)"
  have h1: "\<not> nuked ?v" by (simp add: GhostProtocolVault_init_def)
  have h2: "length (key ?v) = 32" by (simp add: GhostProtocolVault_init_def)
  have h3: "length (replicate 16 (0x22 :: byte)) = 16" by simp
  have h4: "encodable [0x47, 0xE9, 0x20AC, 0x1F600]" by (simp add: encodable_def)
  show ?thesis
    using h1 h2 h3 h4
      encrypt_decrypt_round_trip [OF h1 h2 h3 h4, of ks_zero "replicate 32 0x11"]
    by blast
qed

end
